theory Spec2Isabelle
  imports Complex_Main
begin

section \<open>Python values and exceptions\<close>

text \<open>
  The exceptions the two modules can raise. \<open>PyException\<close> is a bare
  \<^verbatim>\<open>raise Exception(...)\<close> of the source; the others are raised by the
  interpreter or by torch (\<open>ShapeError\<close>: operands whose shapes do not match).
\<close>

datatype error =
    TypeError | ValueError | KeyError | AttributeError | IndexError | OverflowError
  | ShapeError | PyException

text \<open>
  A float: a finite value, an infinity or NaN. Finite values are rationals. The rounding
  of \<^verbatim>\<open>float(v)\<close> for an int is modelled below; the rounding of sums in tensors is
  not, only how NaN and the infinities propagate in them.
\<close>

datatype fl = Fin rat | PInf | NInf | NaN

fun isnan :: "fl \<Rightarrow> bool" where
  "isnan NaN = True"
| "isnan _ = False"

fun fl_add :: "fl \<Rightarrow> fl \<Rightarrow> fl" where
  "fl_add NaN _ = NaN"
| "fl_add _ NaN = NaN"
| "fl_add PInf NInf = NaN"
| "fl_add NInf PInf = NaN"
| "fl_add PInf _ = PInf"
| "fl_add _ PInf = PInf"
| "fl_add NInf _ = NInf"
| "fl_add _ NInf = NInf"
| "fl_add (Fin a) (Fin b) = Fin (a + b)"

text \<open>\<open>fl_lt a b\<close> is Python's \<^verbatim>\<open>a < b\<close> on floats: false whenever NaN is involved.\<close>

fun fl_lt :: "fl \<Rightarrow> fl \<Rightarrow> bool" where
  "fl_lt NaN _ = False"
| "fl_lt _ NaN = False"
| "fl_lt (Fin a) (Fin b) = (a < b)"
| "fl_lt NInf NInf = False"
| "fl_lt NInf _ = True"
| "fl_lt _ NInf = False"
| "fl_lt PInf _ = False"
| "fl_lt _ PInf = True"

definition fl_gt :: "fl \<Rightarrow> fl \<Rightarrow> bool" where
  "fl_gt a b = fl_lt b a"

text \<open>
  The raw values a field can be shown (bool and tuples left out). \<open>PFloat n x\<close> is the
  float object number \<open>n\<close>, whose value is \<open>x\<close>, and \<open>PMissing n\<close> is the instance number
  \<open>n\<close> of class \<^verbatim>\<open>Missing\<close>, which compares by identity.
\<close>

datatype pyval =
    PNone
  | PInt int
  | PFloat nat fl
  | PStr string
  | PList "pyval list"
  | PDict "(pyval \<times> pyval) list"
  | PMissing nat

fun hashable :: "pyval \<Rightarrow> bool" where
  "hashable (PList _) = False"
| "hashable (PDict _) = False"
| "hashable _ = True"

text \<open>
  Two values are the same key of a dict, or the same member of a list, when they are the
  same object or compare equal: an int and a float of the same value are one key
  (\<^verbatim>\<open>1 == 1.0\<close>), and a NaN, which is not equal to itself, is only the key that the same
  object made. \<open>py_key\<close> maps a value to the representative of its keys.
\<close>

fun py_key :: "pyval \<Rightarrow> pyval" where
  "py_key (PFloat n (Fin r)) = (if of_int \<lfloor>r\<rfloor> = r then PInt \<lfloor>r\<rfloor> else PFloat 0 (Fin r))"
| "py_key (PFloat n NaN) = PFloat n NaN"
| "py_key (PFloat n PInf) = PFloat 0 PInf"
| "py_key (PFloat n NInf) = PFloat 0 NInf"
| "py_key v = v"

text \<open>
  \<^verbatim>\<open>float(i)\<close> for an int: the nearest double, ties to the even mantissa of 53 bits,
  and an OverflowError when that is beyond the largest double. \<open>double_exponent a\<close> is
  the number of bits of \<open>a\<close> beyond 53.
\<close>

function double_exponent :: "int \<Rightarrow> nat" where
  "double_exponent a = (if a < 2 ^ 53 then 0 else Suc (double_exponent (a div 2)))"
  by pat_completeness auto
termination
  by (relation "measure nat") auto

declare double_exponent.simps [simp del]

definition round_to_double :: "int \<Rightarrow> int" where
  "round_to_double a =
     (let e = double_exponent a; q = a div 2 ^ e; r = a mod 2 ^ e in
      if 2 ^ e < 2 * r then (q + 1) * 2 ^ e
      else if 2 * r = 2 ^ e \<and> odd q then (q + 1) * 2 ^ e
      else q * 2 ^ e)"

definition float_of_int :: "int \<Rightarrow> error + fl" where
  "float_of_int i =
     (let a = round_to_double \<bar>i\<bar> in
      if 2 ^ 1024 \<le> a then Inl OverflowError
      else Inr (Fin (of_int (if i < 0 then - a else a))))"

text \<open>
  \<^verbatim>\<open>float(v)\<close>. A float is returned as it is. The literal parser of strings is Python's
  own and is a parameter here (\<open>None\<close>: not a float literal, a ValueError).
\<close>

fun py_float :: "(string \<Rightarrow> fl option) \<Rightarrow> pyval \<Rightarrow> error + fl" where
  "py_float parse (PInt i) = float_of_int i"
| "py_float parse (PFloat n x) = Inr x"
| "py_float parse (PStr s) = (case parse s of None \<Rightarrow> Inl ValueError | Some x \<Rightarrow> Inr x)"
| "py_float parse _ = Inl TypeError"

text \<open>
  The number that \<^verbatim>\<open>max_val\<close> or \<^verbatim>\<open>min_val\<close> holds: an int or a float (which object
  it is, is not kept). Python compares an int and a float by their exact values.
\<close>

datatype pynum = NInt int | NFloat fl

fun num_val :: "pynum \<Rightarrow> fl" where
  "num_val (NInt i) = Fin (of_int i)"
| "num_val (NFloat x) = x"

text \<open>
  \<^verbatim>\<open>max(m, v)\<close> and \<^verbatim>\<open>min(m, v)\<close> for a number \<open>m\<close>: the second argument replaces
  the first only when it compares strictly greater (smaller); comparing a number with
  anything but a number is a TypeError.
\<close>

fun py_max :: "pynum \<Rightarrow> pyval \<Rightarrow> error + pynum" where
  "py_max m (PInt i) = Inr (if fl_gt (Fin (of_int i)) (num_val m) then NInt i else m)"
| "py_max m (PFloat n x) = Inr (if fl_gt x (num_val m) then NFloat x else m)"
| "py_max m _ = Inl TypeError"

fun py_min :: "pynum \<Rightarrow> pyval \<Rightarrow> error + pynum" where
  "py_min m (PInt i) = Inr (if fl_lt (Fin (of_int i)) (num_val m) then NInt i else m)"
| "py_min m (PFloat n x) = Inr (if fl_lt x (num_val m) then NFloat x else m)"
| "py_min m _ = Inl TypeError"

text \<open>\<^verbatim>\<open>for v in vs\<close> and \<^verbatim>\<open>len(vs)\<close>: a string yields its characters, a dict its keys.\<close>

fun py_iter :: "pyval \<Rightarrow> error + pyval list" where
  "py_iter (PStr s) = Inr (map (\<lambda>c. PStr [c]) s)"
| "py_iter (PList xs) = Inr xs"
| "py_iter (PDict kvs) = Inr (map fst kvs)"
| "py_iter _ = Inl TypeError"

fun py_items :: "pyval \<Rightarrow> error + (pyval \<times> pyval) list" where
  "py_items (PDict kvs) = Inr kvs"
| "py_items _ = Inl AttributeError"

section \<open>fields.py: the field codecs\<close>

record field_attrs =
  name :: string
  type_name :: string
  empty :: bool

text \<open>
  \<open>_lookup\<close> is a dict whose length is read, so it is an association list in insertion
  order, looked up by the keys of its entries; \<open>_rlookup\<close>, whose keys are indices, is
  only indexed, so it is a map.
\<close>

type_synonym lookup = "(pyval \<times> nat) list"
type_synonym rlookup = "nat \<rightharpoonup> pyval"

definition keyed :: "lookup \<Rightarrow> lookup" where
  "keyed L = map (\<lambda>(k, i). (py_key k, i)) L"

definition dict_get :: "lookup \<Rightarrow> pyval \<Rightarrow> nat option" where
  "dict_get L v = map_of (keyed L) (py_key v)"

datatype field =
    EntityTypeField field_attrs
  | RelationField field_attrs string string
  | IdField field_attrs
  | NumericField field_attrs "pynum option" "pynum option"
  | IntegerField field_attrs
  | DateField field_attrs
  | DistributionField field_attrs "pyval list"
  | CategoricalField field_attrs lookup rlookup
  | SequentialField field_attrs lookup rlookup nat
  | CharacterField field_attrs lookup rlookup nat

text \<open>The constructors (\<^verbatim>\<open>__init__\<close>) of the stateful codecs.\<close>

definition Field_init :: "string \<Rightarrow> string \<Rightarrow> field_attrs" where
  "Field_init n ty = \<lparr>name = n, type_name = ty, empty = True\<rparr>"

definition NumericField_init :: "string \<Rightarrow> string \<Rightarrow> field" where
  "NumericField_init n ty = NumericField (Field_init n ty) None None"

definition DistributionField_init :: "string \<Rightarrow> string \<Rightarrow> field" where
  "DistributionField_init n ty = DistributionField (Field_init n ty) []"

definition CategoricalField_init :: "string \<Rightarrow> string \<Rightarrow> field" where
  "CategoricalField_init n ty =
     CategoricalField (Field_init n ty) [(PMissing 0, 0)] [0 \<mapsto> PMissing 1]"

definition SequentialField_init :: "string \<Rightarrow> string \<Rightarrow> field" where
  "SequentialField_init n ty =
     SequentialField (Field_init n ty) [(PNone, 0)] [0 \<mapsto> PNone] 0"

definition CharacterField_init :: "string \<Rightarrow> string \<Rightarrow> field" where
  "CharacterField_init n ty =
     CharacterField (Field_init n ty) [(PNone, 0)] [0 \<mapsto> PNone] 0"

text \<open>
  \<^verbatim>\<open>i = self._lookup.setdefault(v, len(self._lookup))\<close>: the index of \<open>v\<close>, a new one
  when \<open>v\<close> is not a key yet. An unhashable key is a TypeError.
\<close>

definition setdefault :: "lookup \<Rightarrow> pyval \<Rightarrow> error + (lookup \<times> nat)" where
  "setdefault L v =
     (if \<not> hashable v then Inl TypeError
      else case dict_get L v of
             Some i \<Rightarrow> Inr (L, i)
           | None \<Rightarrow> Inr (L @ [(v, length L)], length L))"

text \<open>
  The loop of the sequence codecs,
  \<^verbatim>\<open>for v in vs: i = self._lookup.setdefault(v, len(self._lookup)); self._rlookup[i] = v\<close>.
  It returns the tables as they stand at the end, or where an exception left them.
\<close>

fun observe_elems :: "pyval list \<Rightarrow> lookup \<Rightarrow> rlookup \<Rightarrow> (lookup \<times> rlookup) \<times> error option" where
  "observe_elems [] L R = ((L, R), None)"
| "observe_elems (v # vs) L R =
     (case setdefault L v of
        Inl e \<Rightarrow> ((L, R), Some e)
      | Inr (L', i) \<Rightarrow> observe_elems vs L' (R(i \<mapsto> v)))"

text \<open>
  The loop of the distribution codec,
  \<^verbatim>\<open>for k, v in v.items(): if k not in self.categories: self.categories.append(k)\<close>.
\<close>

fun observe_items :: "(pyval \<times> pyval) list \<Rightarrow> pyval list \<Rightarrow> pyval list" where
  "observe_items [] cs = cs"
| "observe_items ((k, _) # kvs) cs =
     observe_items kvs (if py_key k \<in> py_key ` set cs then cs else cs @ [k])"

text \<open>
  \<^verbatim>\<open>Field.observe_value\<close>: clear \<open>empty\<close>, then run the class's \<^verbatim>\<open>_observe_value\<close>.
  The result is the field as the call leaves it (also when it raises) and what the
  call returns or raises. \<^verbatim>\<open>NumericField\<close> stores \<^verbatim>\<open>retval\<close>, the float, when
  \<^verbatim>\<open>max_val\<close> is \<^verbatim>\<open>None\<close>, and otherwise compares with the raw \<open>v\<close> (lines 80-81);
  the float it returns is written as the object number 0.
\<close>

fun observe_value :: "(string \<Rightarrow> fl option) \<Rightarrow> field \<Rightarrow> pyval \<Rightarrow> field \<times> (error + pyval)" where
  "observe_value p (EntityTypeField a) v = (EntityTypeField (a\<lparr>empty := False\<rparr>), Inr PNone)"
| "observe_value p (RelationField a s t) v = (RelationField (a\<lparr>empty := False\<rparr>) s t, Inr PNone)"
| "observe_value p (IdField a) v = (IdField (a\<lparr>empty := False\<rparr>), Inr PNone)"
| "observe_value p (IntegerField a) v = (IntegerField (a\<lparr>empty := False\<rparr>), Inr v)"
| "observe_value p (DateField a) v = (DateField (a\<lparr>empty := False\<rparr>), Inr v)"
| "observe_value p (NumericField a mx mn) v =
     (let a' = a\<lparr>empty := False\<rparr> in
      case py_float p v of
        Inl e \<Rightarrow> (NumericField a' mx mn, Inl e)
      | Inr retval \<Rightarrow>
          (case (case mx of None \<Rightarrow> Inr (NFloat retval) | Some m \<Rightarrow> py_max m v) of
             Inl e \<Rightarrow> (NumericField a' mx mn, Inl e)
           | Inr mx' \<Rightarrow>
               (case (case mn of None \<Rightarrow> Inr (NFloat retval) | Some m \<Rightarrow> py_min m v) of
                  Inl e \<Rightarrow> (NumericField a' (Some mx') mn, Inl e)
                | Inr mn' \<Rightarrow> (NumericField a' (Some mx') (Some mn'), Inr (PFloat 0 retval)))))"
| "observe_value p (DistributionField a cs) v =
     (let a' = a\<lparr>empty := False\<rparr> in
      case py_items v of
        Inl e \<Rightarrow> (DistributionField a' cs, Inl e)
      | Inr kvs \<Rightarrow> (DistributionField a' (observe_items kvs cs), Inr PNone))"
| "observe_value p (CategoricalField a L R) v =
     (let a' = a\<lparr>empty := False\<rparr> in
      case setdefault L v of
        Inl e \<Rightarrow> (CategoricalField a' L R, Inl e)
      | Inr (L', i) \<Rightarrow> (CategoricalField a' L' (R(i \<mapsto> v)), Inr PNone))"
| "observe_value p (SequentialField a L R n) vs =
     (let a' = a\<lparr>empty := False\<rparr> in
      case py_iter vs of
        Inl e \<Rightarrow> (SequentialField a' L R n, Inl e)
      | Inr xs \<Rightarrow>
          (case observe_elems xs L R of
             ((L', R'), Some e) \<Rightarrow> (SequentialField a' L' R' n, Inl e)
           | ((L', R'), None) \<Rightarrow> (SequentialField a' L' R' (max (length xs) n), Inr PNone)))"
| "observe_value p (CharacterField a L R n) vs =
     (let a' = a\<lparr>empty := False\<rparr> in
      case py_iter vs of
        Inl e \<Rightarrow> (CharacterField a' L R n, Inl e)
      | Inr xs \<Rightarrow>
          (case observe_elems xs L R of
             ((L', R'), Some e) \<Rightarrow> (CharacterField a' L' R' n, Inl e)
           | ((L', R'), None) \<Rightarrow> (CharacterField a' L' R' (max (length xs) n), Inr PNone)))"

text \<open>
  A \<^verbatim>\<open>NumericField\<close> whose \<^verbatim>\<open>max_val\<close> or \<^verbatim>\<open>min_val\<close> is still \<^verbatim>\<open>None\<close>, as
  \<^verbatim>\<open>__init__\<close> leaves them.
\<close>

definition unseen_numeric :: "field \<Rightarrow> bool" where
  "unseen_numeric f =
     (case f of
        NumericField a mx mn \<Rightarrow>
          (case mx of None \<Rightarrow> True | Some _ \<Rightarrow> (case mn of None \<Rightarrow> True | Some _ \<Rightarrow> False))
      | _ \<Rightarrow> False)"

section \<open>ensemble.py: tensors and index sets\<close>

text \<open>
  Running a step that may raise, then the next one on its result.
\<close>

definition ebind :: "error + 'a \<Rightarrow> ('a \<Rightarrow> error + 'b) \<Rightarrow> error + 'b" where
  "ebind x f = (case x of Inl e \<Rightarrow> Inl e | Inr v \<Rightarrow> f v)"

text \<open>A loop that builds a list, and a loop that updates a state; both stop at the first exception.\<close>

fun mapM :: "('a \<Rightarrow> error + 'b) \<Rightarrow> 'a list \<Rightarrow> error + 'b list" where
  "mapM f [] = Inr []"
| "mapM f (x # xs) = ebind (f x) (\<lambda>y. ebind (mapM f xs) (\<lambda>ys. Inr (y # ys)))"

fun foldM :: "('a \<Rightarrow> 's \<Rightarrow> error + 's) \<Rightarrow> 'a list \<Rightarrow> 's \<Rightarrow> error + 's" where
  "foldM f [] s = Inr s"
| "foldM f (x # xs) s = ebind (f x s) (foldM f xs)"

text \<open>\<^verbatim>\<open>d[k]\<close> on a dict: a KeyError when the key is missing.\<close>

definition getitem :: "('k \<rightharpoonup> 'v) \<Rightarrow> 'k \<Rightarrow> error + 'v" where
  "getitem d k = (case d k of None \<Rightarrow> Inl KeyError | Some v \<Rightarrow> Inr v)"

text \<open>The dict a loop builds by assigning the pairs in order: a later pair overrides.\<close>

definition dict_of :: "('k \<times> 'v) list \<Rightarrow> ('k \<rightharpoonup> 'v)" where
  "dict_of kvs = map_of (rev kvs)"

text \<open>
  A two-dimensional tensor: \<open>shape[0]\<close> is the number of rows, \<open>shape[1]\<close> is \<open>ncols\<close>
  (kept apart from the rows, since a tensor with no row still has a width). In every
  tensor torch builds each row has \<open>ncols\<close> entries (\<open>wf_tensor\<close>).
\<close>

record tensor =
  ncols :: nat
  rows :: "fl list list"

definition wf_tensor :: "tensor \<Rightarrow> bool" where
  "wf_tensor t = list_all (\<lambda>r. length r = ncols t) (rows t)"

definition zeros :: "nat \<Rightarrow> nat \<Rightarrow> tensor" where
  "zeros n w = \<lparr>ncols = w, rows = replicate n (replicate w (Fin 0))\<rparr>"

text \<open>
  \<^verbatim>\<open>index_space.masked_select(mask)\<close>: the entries at the true positions. Operands of
  different lengths are reported as a shape error (torch would also stretch an operand of
  length one, which no batch column or adjacency row of \<open>N\<close> entries is).
\<close>

definition masked_select :: "nat list \<Rightarrow> bool list \<Rightarrow> error + nat list" where
  "masked_select xs msk =
     (if length msk = length xs then Inr (map fst (filter snd (zip xs msk)))
      else Inl ShapeError)"

text \<open>\<^verbatim>\<open>a & b\<close> on boolean masks.\<close>

definition mask_and :: "bool list \<Rightarrow> bool list \<Rightarrow> error + bool list" where
  "mask_and a b =
     (if length a = length b then Inr (map (\<lambda>(x, y). x \<and> y) (zip a b))
      else Inl ShapeError)"

text \<open>\<^verbatim>\<open>torch.index_select(t, 0, indices)\<close>.\<close>

definition index_select :: "tensor \<Rightarrow> nat list \<Rightarrow> error + tensor" where
  "index_select t idx =
     (if list_all (\<lambda>i. i < length (rows t)) idx
      then Inr \<lparr>ncols = ncols t, rows = map (\<lambda>i. rows t ! i) idx\<rparr>
      else Inl IndexError)"

text \<open>
  \<^verbatim>\<open>t[indices] = src\<close>: row \<open>indices[k]\<close> of \<open>t\<close> becomes row \<open>k\<close> of \<open>src\<close>.
\<close>

definition index_put :: "tensor \<Rightarrow> nat list \<Rightarrow> tensor \<Rightarrow> error + tensor" where
  "index_put t idx src =
     (if \<not> list_all (\<lambda>i. i < length (rows t)) idx then Inl IndexError
      else if length (rows src) \<noteq> length idx then Inl ShapeError
      else if ncols src \<noteq> ncols t then Inl ShapeError
      else Inr (t\<lparr>rows := fold (\<lambda>(i, r) rs. rs[i := r]) (zip idx (rows src)) (rows t)\<rparr>))"

text \<open>\<^verbatim>\<open>t[i] = r\<close> for one row.\<close>

definition row_put :: "tensor \<Rightarrow> nat \<Rightarrow> fl list \<Rightarrow> error + tensor" where
  "row_put t i r =
     (if \<not> i < length (rows t) then Inl IndexError
      else if length r \<noteq> ncols t then Inl ShapeError
      else Inr (t\<lparr>rows := (rows t)[i := r]\<rparr>))"

text \<open>\<^verbatim>\<open>torch.cat(ts, 1)\<close>: the tensors side by side; they must have the same rows count.\<close>

fun cat1 :: "tensor list \<Rightarrow> error + tensor" where
  "cat1 [] = Inl ValueError"
| "cat1 (t # ts) =
     (if list_all (\<lambda>u. length (rows u) = length (rows t)) ts
      then Inr \<lparr>ncols = sum_list (map ncols (t # ts)),
                rows = map (\<lambda>i. concat (map (\<lambda>u. rows u ! i) (t # ts))) [0..<length (rows t)]\<rparr>
      else Inl ShapeError)"

text \<open>\<^verbatim>\<open>t.narrow(1, 0, w)\<close>: the first \<open>w\<close> columns.\<close>

definition narrow :: "tensor \<Rightarrow> nat \<Rightarrow> error + tensor" where
  "narrow t w =
     (if w \<le> ncols t then Inr \<lparr>ncols = w, rows = map (take w) (rows t)\<rparr>
      else Inl IndexError)"

text \<open>\<^verbatim>\<open>t.sum(1)\<close> for one row.\<close>

definition row_sum :: "fl list \<Rightarrow> fl" where
  "row_sum r = foldl fl_add (Fin 0) r"

text \<open>\<^verbatim>\<open>m.T\<close> of an \<open>N \<times> N\<close> boolean matrix.\<close>

definition transpose_matrix :: "bool list list \<Rightarrow> bool list list" where
  "transpose_matrix M = map (\<lambda>j. map (\<lambda>r. r ! j) M) [0..<length M]"

section \<open>ensemble.py: schema, batch and model\<close>

definition attrs :: "field \<Rightarrow> field_attrs" where
  "attrs f = (case f of
      EntityTypeField a \<Rightarrow> a | RelationField a _ _ \<Rightarrow> a | IdField a \<Rightarrow> a
    | NumericField a _ _ \<Rightarrow> a | IntegerField a \<Rightarrow> a | DateField a \<Rightarrow> a
    | DistributionField a _ \<Rightarrow> a | CategoricalField a _ _ \<Rightarrow> a
    | SequentialField a _ _ _ \<Rightarrow> a | CharacterField a _ _ _ \<Rightarrow> a)"

text \<open>
  The schema classes are not part of the two modules; the records hold the attributes
  that \<^verbatim>\<open>GraphAutoencoder\<close> reads. The dicts \<^verbatim>\<open>schema.entity_types\<close>,
  \<^verbatim>\<open>schema.data_fields\<close> and \<^verbatim>\<open>schema.relation_fields\<close> are only iterated by
  \<^verbatim>\<open>.values()\<close>, so they are the lists of their values.
\<close>

record entity_type =
  et_name :: string
  et_data_fields :: "string list"
  et_relation_fields :: "string list"
  et_reverse_relation_fields :: "string list"

record schema =
  entity_types :: "entity_type list"
  data_fields :: "field list"
  relation_fields :: "field list"
  id_field :: field
  entity_type_field :: field

text \<open>
  A batch: the id column, the entity type column and the data columns of
  \<^verbatim>\<open>entities\<close>. A data column is kept as its view of shape \<open>(N, -1)\<close>.
  Adjacency: a boolean matrix for each relation name.
\<close>

record batch =
  ids :: "string list"
  types :: "string list"
  cols :: "string \<rightharpoonup> tensor"

type_synonym adjacency = "string \<rightharpoonup> bool list list"

text \<open>
  The neural components come from modules that are not part of the two files; each is a
  parameter: what it declares (\<open>output_size\<close>) and the function it computes. An
  autoencoder returns its reconstruction and its bottleneck, either of which may be
  \<^verbatim>\<open>None\<close> (the third component, the loss, is never read).
\<close>

record encoder =
  output_size :: nat
  encode :: "tensor \<Rightarrow> tensor"

record autoencoder =
  ae_output_size :: nat
  ae_run :: "tensor \<Rightarrow> tensor option \<times> tensor option"

type_synonym summarizer = "fl list list \<Rightarrow> fl list"

record model =
  reverse_relations :: bool
  schema :: schema
  depth :: nat
  base_entity_representation_size :: nat
  autoencoder_shapes :: "nat list"
  bottleneck_size :: "nat option"
  field_encoders :: "string \<rightharpoonup> encoder"
  boundary_sizes :: "string \<rightharpoonup> nat"
  entity_autoencoders :: "string \<rightharpoonup> autoencoder list"
  relation_source_summarizers :: "string \<rightharpoonup> summarizer"
  relation_target_summarizers :: "string \<rightharpoonup> summarizer"
  projected_size :: nat
  projectors :: "string \<rightharpoonup> (tensor \<Rightarrow> tensor)"
  field_decoders :: "string \<rightharpoonup> (tensor \<Rightarrow> tensor)"

section \<open>GraphAutoencoder.forward\<close>

definition field_name :: "field \<Rightarrow> string" where
  "field_name f = name (attrs f)"

definition field_type_name :: "field \<Rightarrow> string" where
  "field_type_name f = type_name (attrs f)"

text \<open>Lines 126 and 138: the row count of the id column and the indices of the type column.\<close>

definition num_entities :: "batch \<Rightarrow> nat" where
  "num_entities es = length (ids es)"

definition index_space :: "batch \<Rightarrow> nat list" where
  "index_space es = [0..<length (types es)]"

text \<open>
  Line 135, \<^verbatim>\<open>rev_adjacencies = {k : v.T for k, v in adjacencies.items()}\<close>. The rest
  of \<^verbatim>\<open>forward\<close> never reads this variable.
\<close>

definition rev_adjacencies :: "adjacency \<Rightarrow> adjacency" where
  "rev_adjacencies adjacencies = (\<lambda>k. map_option transpose_matrix (adjacencies k))"

subsection \<open>Step 1: masks and index sets (lines 139-155)\<close>

text \<open>
  Lines 141-147: a sequential or text field is present where its first token is not 0
  (nowhere when the column has no token); any other field where the sum of its row is
  not NaN. For the latter, \<^verbatim>\<open>torch.reshape\<close> to \<open>(N, -1)\<close> raises when the column has
  no element (no row, or rows of no entry).
\<close>

definition field_mask :: "batch \<Rightarrow> field \<Rightarrow> error + bool list" where
  "field_mask es f =
     ebind (getitem (cols es) (field_name f)) (\<lambda>c.
       if field_type_name f \<in> set [''sequential'', ''text'']
       then (if ncols c = 0 then Inr (replicate (length (rows c)) False)
             else Inr (map (\<lambda>r. r ! 0 \<noteq> Fin 0) (rows c)))
       else if length (rows c) = 0 then Inl ShapeError
       else if ncols c = 0 then Inl ShapeError
       else Inr (map (\<lambda>r. \<not> isnan (row_sum r)) (rows c)))"

text \<open>Line 151.\<close>

definition entity_mask :: "batch \<Rightarrow> string \<Rightarrow> bool list" where
  "entity_mask es n = map (\<lambda>x. x = n) (types es)"

record indexing =
  entity_indices :: "string \<rightharpoonup> nat list"
  entity_masks :: "string \<rightharpoonup> bool list"
  field_indices :: "string \<rightharpoonup> nat list"
  field_masks :: "string \<rightharpoonup> bool list"
  entity_field_indices :: "string \<times> string \<rightharpoonup> nat list"
  entity_field_masks :: "string \<times> string \<rightharpoonup> bool list"

text \<open>Lines 139-148, for one field: its name, its mask and its indices.\<close>

definition index_field :: "batch \<Rightarrow> field \<Rightarrow> error + (string \<times> bool list \<times> nat list)" where
  "index_field es f =
     ebind (field_mask es f) (\<lambda>m.
     ebind (masked_select (index_space es) m) (\<lambda>i.
     Inr (field_name f, m, i)))"

text \<open>Lines 153-155, for one entity type and one of its field names.\<close>

definition index_entity_field ::
  "batch \<Rightarrow> (string \<rightharpoonup> bool list) \<Rightarrow> string \<Rightarrow> bool list \<Rightarrow> string
     \<Rightarrow> error + ((string \<times> string) \<times> bool list \<times> nat list)" where
  "index_entity_field es fmasks n em fn =
     ebind (getitem fmasks fn) (\<lambda>fm.
     ebind (mask_and em fm) (\<lambda>efm.
     ebind (masked_select (index_space es) efm) (\<lambda>efi.
     Inr ((n, fn), efm, efi))))"

text \<open>Lines 150-155, for one entity type.\<close>

definition index_entity_type ::
  "batch \<Rightarrow> (string \<rightharpoonup> bool list) \<Rightarrow> entity_type
     \<Rightarrow> error + (string \<times> bool list \<times> nat list \<times> ((string \<times> string) \<times> bool list \<times> nat list) list)" where
  "index_entity_type es fmasks t =
     (let em = entity_mask es (et_name t) in
      ebind (masked_select (index_space es) em) (\<lambda>ei.
      ebind (mapM (index_entity_field es fmasks (et_name t) em) (et_data_fields t)) (\<lambda>efs.
      Inr (et_name t, em, ei, efs))))"

definition compute_indexing :: "schema \<Rightarrow> batch \<Rightarrow> error + indexing" where
  "compute_indexing sc es =
     ebind (mapM (index_field es) (data_fields sc)) (\<lambda>fs.
     let fmasks = dict_of (map (\<lambda>(n, m, i). (n, m)) fs) in
     ebind (mapM (index_entity_type es fmasks) (entity_types sc)) (\<lambda>ts.
     Inr \<lparr>entity_indices = dict_of (map (\<lambda>(n, em, ei, efs). (n, ei)) ts),
          entity_masks = dict_of (map (\<lambda>(n, em, ei, efs). (n, em)) ts),
          field_indices = dict_of (map (\<lambda>(n, m, i). (n, i)) fs),
          field_masks = fmasks,
          entity_field_indices =
            dict_of (concat (map (\<lambda>(n, em, ei, efs). map (\<lambda>(k, efm, efi). (k, efi)) efs) ts)),
          entity_field_masks =
            dict_of (concat (map (\<lambda>(n, em, ei, efs). map (\<lambda>(k, efm, efi). (k, efm)) efs) ts))\<rparr>))"

subsection \<open>Step 2: field encodings (lines 158-166)\<close>

text \<open>
  For one field: a zero tensor with a row for each entity; when some row has the field,
  the encoder runs on those rows and its output is written back to them. The second
  component logs the inputs the encoder was called with.
\<close>

definition encode_field ::
  "model \<Rightarrow> batch \<Rightarrow> indexing \<Rightarrow> field \<Rightarrow> error + (tensor \<times> tensor list)" where
  "encode_field m es ix f =
     ebind (getitem (field_encoders m) (field_name f)) (\<lambda>enc.
     let z = zeros (num_entities es) (output_size enc) in
     ebind (getitem (field_indices ix) (field_name f)) (\<lambda>indices.
     if length indices > 0
     then ebind (getitem (cols es) (field_name f)) (\<lambda>c.
          ebind (index_select c indices) (\<lambda>field_values.
          ebind (index_put z indices (encode enc field_values)) (\<lambda>z'.
          Inr (z', [field_values]))))
     else Inr (z, [])))"

definition encode_fields :: "model \<Rightarrow> batch \<Rightarrow> indexing \<Rightarrow> error + (string \<rightharpoonup> tensor)" where
  "encode_fields m es ix =
     ebind (mapM (\<lambda>f. ebind (encode_field m es ix f) (\<lambda>(t, calls). Inr (field_name f, t)))
              (data_fields (schema m))) (\<lambda>kvs.
     Inr (dict_of kvs))"

subsection \<open>Step 3: the depth-0 inputs (lines 170-178)\<close>

text \<open>
  For one entity type: a zero block of 8 columns, the encodings of its fields at its rows,
  and a block of no column, side by side.
\<close>

definition autoencoder_input ::
  "indexing \<Rightarrow> (string \<rightharpoonup> tensor) \<Rightarrow> entity_type \<Rightarrow> error + tensor" where
  "autoencoder_input ix field_encodings t =
     ebind (getitem (entity_indices ix) (et_name t)) (\<lambda>ei.
     ebind (mapM (\<lambda>fn. ebind (getitem field_encodings fn) (\<lambda>fe. index_select fe ei))
              (et_data_fields t)) (\<lambda>blocks.
     cat1 ([zeros (length ei) 8] @ blocks @ [zeros (length ei) 0])))"

definition autoencoder_inputs ::
  "model \<Rightarrow> indexing \<Rightarrow> (string \<rightharpoonup> tensor) \<Rightarrow> error + (string \<rightharpoonup> tensor)" where
  "autoencoder_inputs m ix field_encodings =
     ebind (mapM (\<lambda>t. ebind (autoencoder_input ix field_encodings t) (\<lambda>x. Inr (et_name t, x)))
              (entity_types (schema m))) (\<lambda>kvs.
     Inr (dict_of kvs))"

subsection \<open>Step 4: the depth-0 autoencoders (lines 184-194)\<close>

text \<open>
  The state of the loops: \<^verbatim>\<open>autoencoder_outputs\<close> and \<^verbatim>\<open>bottlenecks\<close>.
\<close>

type_synonym ae_state = "(string \<rightharpoonup> tensor) \<times> tensor"

definition depth0_step ::
  "model \<Rightarrow> indexing \<Rightarrow> (string \<rightharpoonup> tensor) \<Rightarrow> entity_type \<Rightarrow> ae_state \<Rightarrow> error + ae_state" where
  "depth0_step m ix inputs t s =
     (case s of (autoencoder_outputs, bottlenecks) \<Rightarrow>
      ebind (getitem (entity_autoencoders m) (et_name t)) (\<lambda>aes.
      ebind (if aes = [] then Inl IndexError else Inr (aes ! 0)) (\<lambda>ae.
      ebind (getitem inputs (et_name t)) (\<lambda>inp.
      case ae_run ae inp of (entity_outputs, bns) \<Rightarrow>
        let outs' = (case entity_outputs of
                       None \<Rightarrow> autoencoder_outputs
                     | Some eo \<Rightarrow> autoencoder_outputs(et_name t \<mapsto> eo)) in
        (case bns of
           None \<Rightarrow> Inr (outs', bottlenecks)
         | Some b \<Rightarrow>
             ebind (getitem (entity_indices ix) (et_name t)) (\<lambda>ei.
             ebind (index_put bottlenecks ei b) (\<lambda>bottlenecks'.
             Inr (outs', bottlenecks'))))))))"

subsection \<open>Step 5: the depths 1 to D (lines 197-239)\<close>

text \<open>Line 209 (and 221): the indices \<open>j\<close> with \<^verbatim>\<open>adjacencies[rel_name][index][j]\<close> true.\<close>

definition related_indices :: "batch \<Rightarrow> bool list list \<Rightarrow> nat \<Rightarrow> error + nat list" where
  "related_indices es M index =
     (if index < length M then masked_select (index_space es) (M ! index)
      else Inl IndexError)"

text \<open>
  Lines 205-212 (and, with the other summarizer table, 217-224): the summaries of one
  relation for the entities \<open>ei\<close> of one type. A relation name that is not in
  \<^verbatim>\<open>adjacencies\<close> is skipped for every entity.
\<close>

definition relation_reps ::
  "batch \<Rightarrow> adjacency \<Rightarrow> nat \<Rightarrow> tensor \<Rightarrow> summarizer \<Rightarrow> string \<Rightarrow> nat list \<Rightarrow> error + tensor" where
  "relation_reps es adjacencies b prev_bottlenecks summarize rel_name ei =
     foldM (\<lambda>(i, index) reps.
              case adjacencies rel_name of
                None \<Rightarrow> Inr reps
              | Some M \<Rightarrow>
                  ebind (related_indices es M index) (\<lambda>related.
                  if length related > 0
                  then ebind (index_select prev_bottlenecks related) (\<lambda>obns.
                       row_put reps i (summarize (rows obns)))
                  else Inr reps))
       (enumerate 0 ei) (zeros (length ei) b)"

text \<open>
  Lines 202-225: the blocks of an entity type, one for each of its outgoing relations
  (line 204 takes \<^verbatim>\<open>relation_target_summarizers\<close>), then, under
  \<^verbatim>\<open>reverse_relations\<close>, one for each of its incoming relations (line 216 takes
  \<^verbatim>\<open>relation_source_summarizers\<close>; line 221 reads \<^verbatim>\<open>adjacencies\<close> again).
\<close>

definition other_reps ::
  "model \<Rightarrow> batch \<Rightarrow> adjacency \<Rightarrow> nat \<Rightarrow> tensor \<Rightarrow> entity_type \<Rightarrow> nat list \<Rightarrow> error + tensor list" where
  "other_reps m es adjacencies b prev_bottlenecks t ei =
     ebind (mapM (\<lambda>rel_name.
                    ebind (getitem (relation_target_summarizers m) rel_name) (\<lambda>summarize.
                    relation_reps es adjacencies b prev_bottlenecks summarize rel_name ei))
              (et_relation_fields t)) (\<lambda>outgoing.
     if reverse_relations m
     then ebind (mapM (\<lambda>rel_name.
                    ebind (getitem (relation_source_summarizers m) rel_name) (\<lambda>summarize.
                    relation_reps es adjacencies b prev_bottlenecks summarize rel_name ei))
              (et_reverse_relation_fields t)) (\<lambda>incoming.
          Inr (outgoing @ incoming))
     else Inr outgoing)"

text \<open>
  Lines 201-229, for one entity type: the input of its autoencoder at a depth above 0, the
  output of the previous depth cut to the width of the depth-0 autoencoder, then the
  blocks of the relations.
\<close>

definition depth_input ::
  "model \<Rightarrow> batch \<Rightarrow> adjacency \<Rightarrow> indexing \<Rightarrow> nat \<Rightarrow> tensor \<Rightarrow> entity_type
     \<Rightarrow> (string \<rightharpoonup> tensor) \<Rightarrow> error + tensor" where
  "depth_input m es adjacencies ix b prev_bottlenecks t autoencoder_outputs =
     ebind (getitem autoencoder_outputs (et_name t)) (\<lambda>out.
     ebind (getitem (entity_autoencoders m) (et_name t)) (\<lambda>aes.
     ebind (if aes = [] then Inl IndexError else Inr (aes ! 0)) (\<lambda>ae0.
     ebind (narrow out (ae_output_size ae0)) (\<lambda>out'.
     ebind (getitem (entity_indices ix) (et_name t)) (\<lambda>ei.
     ebind (other_reps m es adjacencies b prev_bottlenecks t ei) (\<lambda>reps.
     ebind (if length reps > 0 then cat1 reps
            else Inr (zeros (length (rows out')) 0)) (\<lambda>other.
     cat1 [out', other])))))))"

text \<open>Lines 201-239: one entity type at depth \<open>d\<close>.\<close>

definition depth_step ::
  "model \<Rightarrow> batch \<Rightarrow> adjacency \<Rightarrow> indexing \<Rightarrow> nat \<Rightarrow> tensor \<Rightarrow> nat \<Rightarrow> entity_type
     \<Rightarrow> ae_state \<Rightarrow> error + ae_state" where
  "depth_step m es adjacencies ix b prev_bottlenecks d t s =
     (case s of (autoencoder_outputs, bottlenecks) \<Rightarrow>
      ebind (depth_input m es adjacencies ix b prev_bottlenecks t autoencoder_outputs) (\<lambda>inp.
      ebind (getitem (entity_autoencoders m) (et_name t)) (\<lambda>aes.
      ebind (getitem (entity_indices ix) (et_name t)) (\<lambda>ei.
      let ae = (if d > length aes - 1 then last aes else aes ! d) in
      case ae_run ae inp of (entity_outputs, bns) \<Rightarrow>
        (case entity_outputs of
           None \<Rightarrow> Inl AttributeError
         | Some eo \<Rightarrow>
             if ncols eo \<noteq> 0
             then (case bns of
                     None \<Rightarrow> Inl TypeError
                   | Some bt \<Rightarrow>
                       ebind (index_put bottlenecks ei bt) (\<lambda>bottlenecks'.
                       Inr (autoencoder_outputs(et_name t \<mapsto> eo), bottlenecks')))
             else Inr (autoencoder_outputs(et_name t \<mapsto> eo), bottlenecks))))))"

text \<open>
  Lines 197-239: \<^verbatim>\<open>prev_bottlenecks = bottlenecks.clone()\<close> is taken once, before
  the loop over the depths, and no line of the loop assigns it.
\<close>

definition depth_loop ::
  "model \<Rightarrow> batch \<Rightarrow> adjacency \<Rightarrow> indexing \<Rightarrow> nat \<Rightarrow> ae_state \<Rightarrow> error + ae_state" where
  "depth_loop m es adjacencies ix b s =
     (let prev_bottlenecks = snd s in
      foldM (\<lambda>d. foldM (depth_step m es adjacencies ix b prev_bottlenecks d)
                    (entity_types (schema m)))
        [1..<depth m + 1] s)"

subsection \<open>Steps 6 to 8: projection and decoding (lines 243-256)\<close>

text \<open>
  Lines 243-246. \<^verbatim>\<open>autoencoder_outputs\<close> gets its keys in the depth-0 loop, in the
  order of the entity types.
\<close>

definition project :: "model \<Rightarrow> batch \<Rightarrow> indexing \<Rightarrow> (string \<rightharpoonup> tensor) \<Rightarrow> error + tensor" where
  "project m es ix autoencoder_outputs =
     foldM (\<lambda>t resized.
              case autoencoder_outputs (et_name t) of
                None \<Rightarrow> Inr resized
              | Some ae_output \<Rightarrow>
                  ebind (getitem (entity_indices ix) (et_name t)) (\<lambda>indices.
                  ebind (getitem (projectors m) (et_name t)) (\<lambda>p.
                  index_put resized indices (p ae_output))))
       (entity_types (schema m)) (zeros (num_entities es) (projected_size m))"

record reconstructions =
  rec_fields :: "string \<rightharpoonup> tensor"
  rec_ids :: "string list"
  rec_types :: "string list"

definition decode :: "model \<Rightarrow> batch \<Rightarrow> tensor \<Rightarrow> error + reconstructions" where
  "decode m es resized =
     ebind (mapM (\<lambda>f. ebind (getitem (field_decoders m) (field_name f)) (\<lambda>dec.
                       Inr (field_name f, dec resized)))
              (data_fields (schema m))) (\<lambda>kvs.
     Inr \<lparr>rec_fields = dict_of kvs, rec_ids = ids es, rec_types = types es\<rparr>)"

text \<open>
  \<^verbatim>\<open>forward(entities, adjacencies)\<close>. Line 184 builds \<^verbatim>\<open>bottlenecks\<close> with
  \<^verbatim>\<open>self.bottleneck_size\<close> columns, a TypeError when that is \<^verbatim>\<open>None\<close>. The third
  result, \<^verbatim>\<open>autoencoder_boundary_pairs\<close>, is the empty list it starts as.
\<close>

definition forward ::
  "model \<Rightarrow> batch \<Rightarrow> adjacency \<Rightarrow> error + (reconstructions \<times> tensor \<times> (tensor \<times> tensor) list)" where
  "forward m es adjacencies =
     ebind (compute_indexing (schema m) es) (\<lambda>ix.
     ebind (encode_fields m es ix) (\<lambda>field_encodings.
     ebind (autoencoder_inputs m ix field_encodings) (\<lambda>inputs.
     ebind (case bottleneck_size m of None \<Rightarrow> Inl TypeError | Some b \<Rightarrow> Inr b) (\<lambda>b.
     ebind (foldM (depth0_step m ix inputs) (entity_types (schema m))
              (Map.empty, zeros (num_entities es) b)) (\<lambda>s0.
     ebind (depth_loop m es adjacencies ix b s0) (\<lambda>s.
     ebind (project m es ix (fst s)) (\<lambda>resized.
     ebind (decode m es resized) (\<lambda>recon.
     Inr (recon, snd s, [])))))))))"

section \<open>GraphAutoencoder.__init__\<close>

text \<open>
  The constructors that \<^verbatim>\<open>__init__\<close> calls are not part of the two modules, so they
  are parameters: the registry \<^verbatim>\<open>field_model_classes\<close> (for a field, the encoder and,
  for a projected size, the decoder that its entries build; \<open>None\<close> for a field type
  that is not registered), \<^verbatim>\<open>Autoencoder\<close> (applied to the list of layer sizes),
  the \<^verbatim>\<open>summarizers\<close> class (applied to \<^verbatim>\<open>self.bottleneck_size\<close>) and
  \<^verbatim>\<open>MLPProjector\<close>. They are taken not to raise, and each is a function of its
  arguments: the weights that a constructor draws are not modelled, so the two summarizers
  of a relation are the same function here (in \<^verbatim>\<open>forward\<close> the tables of the model
  are arbitrary). \<open>module_attributes\<close> tells which names are attributes of a new
  \<^verbatim>\<open>torch.nn.ModuleDict\<close> (such as \<open>type\<close> or \<open>forward\<close>); it is torch's and a
  parameter as well.
\<close>

record factories =
  field_model_classes :: "field \<Rightarrow> (encoder \<times> (nat \<Rightarrow> tensor \<Rightarrow> tensor)) option"
  Autoencoder :: "nat list \<Rightarrow> autoencoder"
  summarizers :: "nat option \<Rightarrow> summarizer"
  MLPProjector :: "nat \<Rightarrow> nat \<Rightarrow> tensor \<Rightarrow> tensor"
  module_attributes :: "string \<Rightarrow> bool"

text \<open>
  \<^verbatim>\<open>torch.nn.ModuleDict(d)\<close> (lines 54, 78, 87, 88, 103 and 114) adds the entries of
  \<open>d\<close> one by one, and \<^verbatim>\<open>add_module\<close> raises a KeyError for a key that is an
  attribute of the module, that contains a dot or that is empty.
\<close>

definition module_key_ok :: "(string \<Rightarrow> bool) \<Rightarrow> string \<Rightarrow> bool" where
  "module_key_ok has_attr n =
     (if has_attr n then False else if CHR ''.'' \<in> set n then False else n \<noteq> [])"

definition ModuleDict :: "(string \<Rightarrow> bool) \<Rightarrow> (string \<times> 'a) list \<Rightarrow> error + (string \<rightharpoonup> 'a)" where
  "ModuleDict has_attr kvs =
     (if list_all (\<lambda>(k, v). module_key_ok has_attr k) kvs then Inr (dict_of kvs)
      else Inl KeyError)"

text \<open>Line 45.\<close>

definition init_bottleneck_size :: "nat list \<Rightarrow> nat option" where
  "init_bottleneck_size shapes = (if shapes = [] then None else Some (last shapes))"

text \<open>Lines 48-54: an exception for a field whose type has no registered encoder.\<close>

definition init_field_encoders :: "factories \<Rightarrow> schema \<Rightarrow> error + (string \<times> encoder) list" where
  "init_field_encoders fa sc =
     mapM (\<lambda>f. case field_model_classes fa f of
                  None \<Rightarrow> Inl PyException
                | Some (enc, dec) \<Rightarrow> Inr (field_name f, enc))
       (data_fields sc)"

text \<open>Lines 57-61.\<close>

definition init_boundary_size ::
  "nat \<Rightarrow> (string \<rightharpoonup> encoder) \<Rightarrow> entity_type \<Rightarrow> error + (string \<times> nat)" where
  "init_boundary_size base encs t =
     ebind (foldM (\<lambda>fn sz. ebind (getitem encs fn) (\<lambda>enc. Inr (sz + output_size enc)))
              (et_data_fields t) base) (\<lambda>sz.
     Inr (et_name t, sz))"

text \<open>
  \<^verbatim>\<open>boundary_size += self.bottleneck_size\<close>, once for each relation of the list (lines
  70-74 and 97-101): adding \<^verbatim>\<open>None\<close> to an int is a TypeError.
\<close>

definition add_bottlenecks :: "nat option \<Rightarrow> string list \<Rightarrow> nat \<Rightarrow> error + nat" where
  "add_bottlenecks bs rels sz =
     foldM (\<lambda>_ s. case bs of None \<Rightarrow> Inl TypeError | Some b \<Rightarrow> Inr (s + b)) rels sz"

text \<open>Lines 67-77, for one entity type: the autoencoder of depth 0, then one for each depth.\<close>

definition init_entity_autoencoders ::
  "factories \<Rightarrow> nat \<Rightarrow> nat list \<Rightarrow> bool \<Rightarrow> nat option \<Rightarrow> (string \<rightharpoonup> nat) \<Rightarrow> entity_type
     \<Rightarrow> error + (string \<times> autoencoder list)" where
  "init_entity_autoencoders fa d shapes reverse bs sizes t =
     ebind (getitem sizes (et_name t)) (\<lambda>boundary_size.
     let first = Autoencoder fa ([boundary_size] @ shapes) in
     ebind (add_bottlenecks bs (et_relation_fields t) boundary_size) (\<lambda>size1.
     ebind (if reverse then add_bottlenecks bs (et_reverse_relation_fields t) size1
            else Inr size1) (\<lambda>size2.
     Inr (et_name t, first # map (\<lambda>_. Autoencoder fa ([size2] @ shapes)) [0..<d]))))"

text \<open>Lines 94-102, for one entity type.\<close>

definition init_projector ::
  "factories \<Rightarrow> nat \<Rightarrow> bool \<Rightarrow> nat option \<Rightarrow> (string \<rightharpoonup> nat) \<Rightarrow> nat \<Rightarrow> entity_type
     \<Rightarrow> error + (string \<times> (tensor \<Rightarrow> tensor))" where
  "init_projector fa d reverse bs sizes psize t =
     (let boundary_size = (case sizes (et_name t) of None \<Rightarrow> 0 | Some s \<Rightarrow> s) in
      ebind (if d > 0
             then ebind (add_bottlenecks bs (et_relation_fields t) boundary_size) (\<lambda>size1.
                  if reverse then add_bottlenecks bs (et_reverse_relation_fields t) size1
                  else Inr size1)
             else Inr boundary_size) (\<lambda>sz.
      Inr (et_name t, MLPProjector fa sz psize)))"

text \<open>
  Line 92: the given projected size, or the largest boundary size
  (\<^verbatim>\<open>max\<close> of no value is a ValueError).
\<close>

definition init_projected_size :: "nat option \<Rightarrow> nat list \<Rightarrow> error + nat" where
  "init_projected_size projected sizes =
     (case projected of
        Some p \<Rightarrow> Inr p
      | None \<Rightarrow> (case sizes of [] \<Rightarrow> Inl ValueError | s # ss \<Rightarrow> Inr (fold max ss s)))"

text \<open>
  \<^verbatim>\<open>GraphAutoencoder(schema, depth, autoencoder_shapes, reverse_relations,
  summarizers, activation, projected_size, base_entity_representation_size)\<close>.
  The summarizer tables exist only when \<open>depth > 0\<close> (lines 81-88).
\<close>

definition GraphAutoencoder_init ::
  "factories \<Rightarrow> schema \<Rightarrow> nat \<Rightarrow> nat list \<Rightarrow> bool \<Rightarrow> nat option \<Rightarrow> nat \<Rightarrow> error + model" where
  "GraphAutoencoder_init fa sc d shapes reverse projected base =
     (let bs = init_bottleneck_size shapes; has_attr = module_attributes fa in
      ebind (init_field_encoders fa sc) (\<lambda>encs.
      ebind (ModuleDict has_attr encs) (\<lambda>field_encoders.
      ebind (mapM (init_boundary_size base field_encoders) (entity_types sc)) (\<lambda>sizes.
      ebind (mapM (init_entity_autoencoders fa d shapes reverse bs (dict_of sizes))
               (entity_types sc)) (\<lambda>aes.
      ebind (ModuleDict has_attr aes) (\<lambda>entity_autoencoders.
      ebind (if d > 0
             then ModuleDict has_attr
                    (map (\<lambda>r. (field_name r, summarizers fa bs)) (relation_fields sc))
             else Inr Map.empty) (\<lambda>source_summarizers.
      ebind (if d > 0
             then ModuleDict has_attr
                    (map (\<lambda>r. (field_name r, summarizers fa bs)) (relation_fields sc))
             else Inr Map.empty) (\<lambda>target_summarizers.
      ebind (init_projected_size projected (map snd sizes)) (\<lambda>psize.
      ebind (mapM (init_projector fa d reverse bs (dict_of sizes) psize) (entity_types sc)) (\<lambda>projs.
      ebind (ModuleDict has_attr projs) (\<lambda>projectors.
      ebind (mapM (\<lambda>f. case field_model_classes fa f of
                          None \<Rightarrow> Inl KeyError
                        | Some (enc, dec) \<Rightarrow> Inr (field_name f, dec psize))
               (data_fields sc)) (\<lambda>decs.
      ebind (ModuleDict has_attr decs) (\<lambda>field_decoders.
      Inr \<lparr>reverse_relations = reverse,
           schema = sc,
           depth = d,
           base_entity_representation_size = base,
           autoencoder_shapes = shapes,
           bottleneck_size = bs,
           field_encoders = field_encoders,
           boundary_sizes = dict_of sizes,
           entity_autoencoders = entity_autoencoders,
           relation_source_summarizers = source_summarizers,
           relation_target_summarizers = target_summarizers,
           projected_size = psize,
           projectors = projectors,
           field_decoders = field_decoders\<rparr>)))))))))))))"

section \<open>fields.py: encode and decode of the categorical and the sequence codec\<close>

text \<open>
  \<^verbatim>\<open>CategoricalField.encode\<close>, \<^verbatim>\<open>self._lookup.get(v, None)\<close>: an index, or
  \<^verbatim>\<open>None\<close> for a value that was never observed.
\<close>

definition CategoricalField_encode :: "lookup \<Rightarrow> pyval \<Rightarrow> error + nat option" where
  "CategoricalField_encode L v = (if \<not> hashable v then Inl TypeError else Inr (dict_get L v))"

text \<open>
  \<^verbatim>\<open>CategoricalField.decode\<close> of an index (or of \<^verbatim>\<open>None\<close>, which is never a key):
  an exception when it is not a key of \<^verbatim>\<open>_rlookup\<close>.
\<close>

definition CategoricalField_decode :: "rlookup \<Rightarrow> nat option \<Rightarrow> error + pyval" where
  "CategoricalField_decode R v =
     (case v of
        None \<Rightarrow> Inl PyException
      | Some i \<Rightarrow> (case R i of None \<Rightarrow> Inl PyException | Some x \<Rightarrow> Inr x))"

text \<open>\<^verbatim>\<open>SequentialField.encode\<close>, \<^verbatim>\<open>[self._lookup[e] for e in v]\<close>.\<close>

definition SequentialField_encode :: "lookup \<Rightarrow> pyval \<Rightarrow> error + nat list" where
  "SequentialField_encode L v =
     ebind (py_iter v)
       (mapM (\<lambda>e. if \<not> hashable e then Inl TypeError else getitem (dict_get L) e))"

text \<open>
  The list \<^verbatim>\<open>[Missing.value, Unknown.value]\<close> of line 219. Class \<^verbatim>\<open>Missing\<close> (lines
  10-11) has no attribute \<^verbatim>\<open>value\<close>, and the module binds no name \<^verbatim>\<open>Unknown\<close>:
  evaluating the list raises at its first element.
\<close>

definition skipped_values :: "error + nat list" where
  "skipped_values = Inl AttributeError"

text \<open>\<^verbatim>\<open>"".join(xs)\<close>: a TypeError when an item is not a string.\<close>

fun join :: "pyval list \<Rightarrow> error + string" where
  "join [] = Inr []"
| "join (PStr s # xs) = ebind (join xs) (\<lambda>r. Inr (s @ r))"
| "join (_ # xs) = Inl TypeError"

text \<open>
  \<^verbatim>\<open>SequentialField.decode\<close> (lines 217-221): the comprehension evaluates its filter
  for each element of \<open>v\<close>; whatever is raised inside the \<^verbatim>\<open>try\<close> becomes the
  exception of line 221.
\<close>

definition SequentialField_decode :: "rlookup \<Rightarrow> nat list \<Rightarrow> error + pyval" where
  "SequentialField_decode R v =
     (case ebind (mapM (\<lambda>e. ebind skipped_values (\<lambda>skip.
                              if e \<notin> set skip then ebind (getitem R e) (\<lambda>x. Inr [x])
                              else Inr [])) v) (\<lambda>parts. join (concat parts)) of
        Inl _ \<Rightarrow> Inl PyException
      | Inr s \<Rightarrow> Inr (PStr s))"

text \<open>
  A caller that shows a field the values of a list, one after the other
  (\<^verbatim>\<open>for v in vs: field.observe_value(v)\<close>); an exception ends it.
\<close>

fun observe_values :: "(string \<Rightarrow> fl option) \<Rightarrow> field \<Rightarrow> pyval list \<Rightarrow> error + field" where
  "observe_values p f [] = Inr f"
| "observe_values p f (v # vs) =
     (case observe_value p f v of
        (f', Inl e) \<Rightarrow> Inl e
      | (f', Inr _) \<Rightarrow> observe_values p f' vs)"

text \<open>\<^verbatim>\<open>encode(decode(encode(v)))\<close> for the two codecs.\<close>

definition categorical_roundtrip :: "lookup \<Rightarrow> rlookup \<Rightarrow> pyval \<Rightarrow> error + nat option" where
  "categorical_roundtrip L R v =
     ebind (CategoricalField_encode L v) (\<lambda>i.
     ebind (CategoricalField_decode R i) (\<lambda>w.
     CategoricalField_encode L w))"

definition sequential_roundtrip :: "lookup \<Rightarrow> rlookup \<Rightarrow> pyval \<Rightarrow> error + nat list" where
  "sequential_roundtrip L R v =
     ebind (SequentialField_encode L v) (\<lambda>i.
     ebind (SequentialField_decode R i) (\<lambda>w.
     SequentialField_encode L w))"

section \<open>A small instance\<close>

text \<open>
  The scenario of the specification: entity types \<open>Person\<close> with the categorical field
  \<open>name\<close> and \<open>Doc\<close> with the sequential field \<open>title\<close>, and the relation
  \<open>authored\<close> from \<open>Person\<close> to \<open>Doc\<close>; a batch of two persons and one document,
  the first person being an author of the document. The neural components are simple
  functions of the sums of the rows.
\<close>

definition ex_Person :: entity_type where
  "ex_Person = \<lparr>et_name = ''Person'', et_data_fields = [''name''],
                et_relation_fields = [''authored''], et_reverse_relation_fields = []\<rparr>"

definition ex_Doc :: entity_type where
  "ex_Doc = \<lparr>et_name = ''Doc'', et_data_fields = [''title''],
             et_relation_fields = [], et_reverse_relation_fields = [''authored'']\<rparr>"

definition ex_name :: field where
  "ex_name = CategoricalField_init ''name'' ''categorical''"

definition ex_title :: field where
  "ex_title = SequentialField_init ''title'' ''sequential''"

definition ex_schema :: schema where
  "ex_schema =
     \<lparr>entity_types = [ex_Person, ex_Doc],
      data_fields = [ex_name, ex_title],
      relation_fields = [RelationField (Field_init ''authored'' ''relation'') ''Person'' ''Doc''],
      id_field = IdField (Field_init ''id'' ''id''),
      entity_type_field = EntityTypeField (Field_init ''entity_type'' ''entity_type'')\<rparr>"

definition ex_batch :: batch where
  "ex_batch =
     \<lparr>ids = [''p0'', ''p1'', ''d2''],
      types = [''Person'', ''Person'', ''Doc''],
      cols = [''name'' \<mapsto> \<lparr>ncols = 1, rows = [[Fin 1], [Fin 2], [NaN]]\<rparr>,
              ''title'' \<mapsto> \<lparr>ncols = 2, rows = [[Fin 0, Fin 0], [Fin 0, Fin 0], [Fin 1, Fin 2]]\<rparr>]\<rparr>"

definition ex_adjacency :: adjacency where
  "ex_adjacency = [''authored'' \<mapsto> [[False, False, True], [False, False, False], [False, False, False]]]"

text \<open>Each row becomes \<open>w\<close> copies of a function of its sum.\<close>

definition ex_rows :: "nat \<Rightarrow> (fl \<Rightarrow> fl) \<Rightarrow> tensor \<Rightarrow> tensor" where
  "ex_rows w g t = \<lparr>ncols = w, rows = map (\<lambda>r. replicate w (g (row_sum r))) (rows t)\<rparr>"

text \<open>The sums of the columns of the given rows, plus \<open>c\<close>.\<close>

definition ex_summarizer :: "fl \<Rightarrow> summarizer" where
  "ex_summarizer c obns =
     (case obns of [] \<Rightarrow> [] | r # rs \<Rightarrow> map (fl_add c) (fold (\<lambda>x acc. map (\<lambda>(a, b). fl_add a b) (zip acc x)) rs r))"

text \<open>
  An autoencoder over the layer sizes \<open>shapes\<close>: it returns its input with 1 added to each
  entry and, when there is a layer after the input, a bottleneck of the last size.
\<close>

definition ex_Autoencoder :: "nat list \<Rightarrow> autoencoder" where
  "ex_Autoencoder shapes =
     \<lparr>ae_output_size = (case shapes of [] \<Rightarrow> 0 | s # _ \<Rightarrow> s),
      ae_run = (\<lambda>t. (Some (t\<lparr>rows := map (map (fl_add (Fin 1))) (rows t)\<rparr>),
                     if length shapes \<le> 1 then None
                     else Some (ex_rows (last shapes) (fl_add (Fin 1)) t)))\<rparr>"

definition ex_factories :: factories where
  "ex_factories =
     \<lparr>field_model_classes =
        (\<lambda>f. case f of
           CategoricalField _ _ _ \<Rightarrow>
             Some (\<lparr>output_size = 2, encode = ex_rows 2 (\<lambda>x. x)\<rparr>, (\<lambda>p. ex_rows 1 (\<lambda>x. x)))
         | SequentialField _ _ _ _ \<Rightarrow>
             Some (\<lparr>output_size = 1, encode = ex_rows 1 (\<lambda>x. x)\<rparr>, (\<lambda>p. ex_rows 2 (\<lambda>x. x)))
         | _ \<Rightarrow> None),
      Autoencoder = ex_Autoencoder,
      summarizers = (\<lambda>b. ex_summarizer (Fin 0)),
      MLPProjector = (\<lambda>i p. ex_rows p (\<lambda>x. x)),
      module_attributes = (\<lambda>n. n \<in> set [''type'', ''forward'', ''training'', ''keys'', ''values'',
                                        ''items'', ''pop'', ''clear'', ''update''])\<rparr>"

text \<open>The field \<open>title\<close> after it was shown the string \<open>ab\<close>.\<close>

definition ex_title_observed :: field where
  "ex_title_observed = fst (observe_value (\<lambda>s. None) ex_title (PStr ''ab''))"

text \<open>
  The model that \<^verbatim>\<open>__init__\<close> builds for the schema, with depth \<open>d\<close>, and the index sets
  of a batch.
\<close>

definition ex_model :: "nat \<Rightarrow> nat list \<Rightarrow> bool \<Rightarrow> nat \<Rightarrow> model" where
  "ex_model d shapes reverse base =
     projr (GraphAutoencoder_init ex_factories ex_schema d shapes reverse None base)"

definition ex_indexing :: "batch \<Rightarrow> indexing" where
  "ex_indexing es = projr (compute_indexing ex_schema es)"

text \<open>The batch in which no entity has a name.\<close>

definition ex_missing_batch :: batch where
  "ex_missing_batch =
     ex_batch\<lparr>cols := (cols ex_batch)(''name'' \<mapsto> \<lparr>ncols = 1, rows = [[NaN], [NaN], [NaN]]\<rparr>)\<rparr>"

text \<open>
  A model of depth 1 whose two summarizers of \<open>authored\<close> differ (the one for the targets
  adds 10), and the bottlenecks of the batch after depth 0.
\<close>

definition ex_model_summarizers :: "bool \<Rightarrow> model" where
  "ex_model_summarizers reverse =
     (ex_model 1 [3, 1] reverse 8)
       \<lparr>relation_source_summarizers := [''authored'' \<mapsto> ex_summarizer (Fin 0)],
        relation_target_summarizers := [''authored'' \<mapsto> ex_summarizer (Fin 10)]\<rparr>"

definition ex_bottlenecks :: tensor where
  "ex_bottlenecks = \<lparr>ncols = 1, rows = [[Fin 3], [Fin 5], [Fin 4]]\<rparr>"

text \<open>The state of the instance after the autoencoders of depth 0 (lines 184-194).\<close>

definition ex_state0 :: "model \<Rightarrow> ae_state" where
  "ex_state0 m =
     projr (ebind (encode_fields m ex_batch (ex_indexing ex_batch)) (\<lambda>field_encodings.
            ebind (autoencoder_inputs m (ex_indexing ex_batch) field_encodings) (\<lambda>inputs.
            foldM (depth0_step m (ex_indexing ex_batch) inputs) (entity_types (schema m))
              (Map.empty, zeros (num_entities ex_batch) 1))))"

text \<open>The field encodings of the instance (lines 158-166).\<close>

definition ex_encodings :: "model \<Rightarrow> (string \<rightharpoonup> tensor)" where
  "ex_encodings m = projr (encode_fields m ex_batch (ex_indexing ex_batch))"

text \<open>The schema without the relation, and the model that \<^verbatim>\<open>__init__\<close> builds for it.\<close>

definition ex_schema_norel :: schema where
  "ex_schema_norel =
     ex_schema\<lparr>entity_types := [ex_Person\<lparr>et_relation_fields := []\<rparr>,
                                ex_Doc\<lparr>et_reverse_relation_fields := []\<rparr>],
               relation_fields := []\<rparr>"

definition ex_model_norel :: "nat \<Rightarrow> nat list \<Rightarrow> model" where
  "ex_model_norel d shapes =
     projr (GraphAutoencoder_init ex_factories ex_schema_norel d shapes False None 8)"

text \<open>
  The adjacency in which \<open>authored\<close> has a matrix without an edge, and outputs of the
  autoencoders of depth 0 for the two entity types.
\<close>

definition ex_no_edges :: adjacency where
  "ex_no_edges = [''authored'' \<mapsto> [[False, False, False], [False, False, False], [False, False, False]]]"

definition ex_outputs :: "string \<rightharpoonup> tensor" where
  "ex_outputs =
     [''Person'' \<mapsto> \<lparr>ncols = 10, rows = [replicate 8 (Fin 1) @ [Fin 2, Fin 2],
                                          replicate 8 (Fin 1) @ [Fin 3, Fin 3]]\<rparr>,
      ''Doc'' \<mapsto> \<lparr>ncols = 9, rows = [replicate 8 (Fin 1) @ [Fin 4]]\<rparr>]"

section \<open>Definitions used in the proofs\<close>

text \<open>
  The assignment \<^verbatim>\<open>self._rlookup[i] = v\<close> of the observation loop, once \<open>v\<close> is a key
  of the lookup table \<open>L\<close>.
\<close>

definition assign :: "lookup \<Rightarrow> pyval \<Rightarrow> rlookup \<Rightarrow> rlookup" where
  "assign L v R = R(the (dict_get L v) \<mapsto> v)"

text \<open>
  A value \<open>v\<close> is known to the tables of a categorical field when it has an index whose
  reverse entry has the same index.
\<close>

definition known :: "lookup \<Rightarrow> rlookup \<Rightarrow> pyval \<Rightarrow> bool" where
  "known L R v = (hashable v \<and> (case dict_get L v of None \<Rightarrow> False
       | Some i \<Rightarrow> (case R i of None \<Rightarrow> False | Some w \<Rightarrow> hashable w \<and> dict_get L w = Some i)))"

text \<open>
  The summary that the loop of lines 206-212 leaves for the entity \<open>index\<close>: zero when the
  relation has no matrix or the row of the entity has no true entry, otherwise the
  summarizer applied to the rows of \<open>prev_bottlenecks\<close> at the true entries of the row.
\<close>

definition summary_row ::
  "batch \<Rightarrow> adjacency \<Rightarrow> nat \<Rightarrow> tensor \<Rightarrow> summarizer \<Rightarrow> string \<Rightarrow> nat \<Rightarrow> fl list" where
  "summary_row es adjacencies b prev_bottlenecks summarize rel_name index =
     (case adjacencies rel_name of
        None \<Rightarrow> replicate b (Fin 0)
      | Some M \<Rightarrow>
          (let related = filter (\<lambda>j. M ! index ! j) (index_space es) in
           if related = [] then replicate b (Fin 0)
           else summarize (map (\<lambda>j. rows prev_bottlenecks ! j) related)))"

text \<open>
  The blocks as the specification words them: an outgoing relation reduced by its
  source-side summarizer, an incoming one read from the transposed matrix and reduced by
  its target-side summarizer.
\<close>

definition spec_other_reps ::
  "model \<Rightarrow> batch \<Rightarrow> adjacency \<Rightarrow> nat \<Rightarrow> tensor \<Rightarrow> entity_type \<Rightarrow> nat list \<Rightarrow> error + tensor list" where
  "spec_other_reps m es adjacencies b prev_bottlenecks t ei =
     ebind (mapM (\<lambda>rel_name.
                    ebind (getitem (relation_source_summarizers m) rel_name) (\<lambda>summarize.
                    relation_reps es adjacencies b prev_bottlenecks summarize rel_name ei))
              (et_relation_fields t)) (\<lambda>outgoing.
     if reverse_relations m
     then ebind (mapM (\<lambda>rel_name.
                    ebind (getitem (relation_target_summarizers m) rel_name) (\<lambda>summarize.
                    relation_reps es (rev_adjacencies adjacencies) b prev_bottlenecks summarize
                      rel_name ei))
              (et_reverse_relation_fields t)) (\<lambda>incoming.
          Inr (outgoing @ incoming))
     else Inr outgoing)"

text \<open>The body of the loop of lines 206-212, for the entity \<open>index\<close> at position \<open>i\<close>.\<close>

definition relation_step ::
  "batch \<Rightarrow> adjacency \<Rightarrow> tensor \<Rightarrow> summarizer \<Rightarrow> string \<Rightarrow> nat \<times> nat \<Rightarrow> tensor \<Rightarrow> error + tensor" where
  "relation_step es adjacencies prev_bottlenecks summarize rel_name =
     (\<lambda>(i, index) reps.
        case adjacencies rel_name of
          None \<Rightarrow> Inr reps
        | Some M \<Rightarrow>
            ebind (related_indices es M index) (\<lambda>related.
            if length related > 0
            then ebind (index_select prev_bottlenecks related) (\<lambda>obns.
                 row_put reps i (summarize (rows obns)))
            else Inr reps))"

text \<open>
  The loop over the depths as the specification words it: the snapshot is taken again at
  the end of each depth, so that depth \<open>k\<close> reads the bottlenecks of depth \<open>k - 1\<close>.
\<close>

definition spec_depth_loop ::
  "model \<Rightarrow> batch \<Rightarrow> adjacency \<Rightarrow> indexing \<Rightarrow> nat \<Rightarrow> ae_state \<Rightarrow> error + ae_state" where
  "spec_depth_loop m es adjacencies ix b s =
     foldM (\<lambda>d s'. foldM (depth_step m es adjacencies ix b (snd s') d)
                     (entity_types (schema m)) s')
       [1..<depth m + 1] s"

text \<open>
  The block of \<open>w\<close> columns of a tensor that starts at the column \<open>start\<close>
  (\<^verbatim>\<open>t.narrow(1, start, w)\<close>).
\<close>

definition columns :: "tensor \<Rightarrow> nat \<Rightarrow> nat \<Rightarrow> tensor" where
  "columns t start w = \<lparr>ncols = w, rows = map (\<lambda>r. take w (drop start r)) (rows t)\<rparr>"

text \<open>
  The relations of an entity type in the order of their blocks (lines 203-225): the
  outgoing ones, then, under \<^verbatim>\<open>reverse_relations\<close>, the incoming ones.
\<close>

definition relations_of :: "model \<Rightarrow> entity_type \<Rightarrow> string list" where
  "relations_of m t =
     et_relation_fields t @ (if reverse_relations m then et_reverse_relation_fields t else [])"

text \<open>
  A relation without an edge in the batch: its name is not a key of \<^verbatim>\<open>adjacencies\<close>,
  or its matrix has \<open>N\<close> rows of \<open>N\<close> false entries, \<open>N\<close> being the number of entities.
\<close>

definition no_edges :: "batch \<Rightarrow> adjacency \<Rightarrow> string \<Rightarrow> bool" where
  "no_edges es adjacencies rel =
     (case adjacencies rel of
        None \<Rightarrow> True
      | Some M \<Rightarrow> M = replicate (length (types es)) (replicate (length (types es)) False))"

text \<open>
  What \<^verbatim>\<open>forward\<close> expects of its arguments and of the components of the model, none
  of which it checks.

  The batch: as many ids as types; a column of \<open>N\<close> rows for each data field of the schema,
  with an element when the field is not sequential (line 147 reshapes it).
\<close>

definition wf_batch :: "schema \<Rightarrow> batch \<Rightarrow> bool" where
  "wf_batch sc es =
     (length (ids es) = length (types es)
      \<and> list_all (\<lambda>f. case cols es (field_name f) of
                        None \<Rightarrow> False
                      | Some c \<Rightarrow>
                          length (rows c) = length (types es)
                          \<and> (if field_type_name f \<in> set [''sequential'', ''text'']
                             then True
                             else 0 < length (rows c) \<and> 0 < ncols c))
          (data_fields sc))"

text \<open>The adjacency: each relation of an entity type has no matrix, or one of shape \<open>N \<times> N\<close>.\<close>

definition wf_adjacency :: "model \<Rightarrow> batch \<Rightarrow> adjacency \<Rightarrow> bool" where
  "wf_adjacency m es adjacencies =
     list_all (\<lambda>t. list_all (\<lambda>rel. case adjacencies rel of
                                     None \<Rightarrow> True
                                   | Some M \<Rightarrow>
                                       length M = length (types es)
                                       \<and> list_all (\<lambda>r. length r = length (types es)) M)
                      (relations_of m t))
       (entity_types (schema m))"

text \<open>
  A module that maps a tensor to one of width \<open>w\<close> with the same number of rows (an encoder
  of a field, a projector).
\<close>

definition shape_preserving :: "nat \<Rightarrow> (tensor \<Rightarrow> tensor) \<Rightarrow> bool" where
  "shape_preserving w g = (\<forall>x. ncols (g x) = w \<and> length (rows (g x)) = length (rows x))"

text \<open>
  An autoencoder with a bottleneck of width \<open>b\<close>: it returns a reconstruction of the shape
  of its input and a bottleneck with a row of \<open>b\<close> entries for each row of its input.
\<close>

definition ae_contract :: "nat \<Rightarrow> autoencoder \<Rightarrow> bool" where
  "ae_contract b ae =
     (\<forall>x. case ae_run ae x of
            (Some eo, Some bt) \<Rightarrow>
              ncols eo = ncols x \<and> length (rows eo) = length (rows x)
              \<and> ncols bt = b \<and> length (rows bt) = length (rows x) \<and> wf_tensor bt
          | _ \<Rightarrow> False)"

text \<open>A summarizer reduces one or more rows of \<open>b\<close> entries to one row of \<open>b\<close> entries.\<close>

definition summarizer_contract :: "nat \<Rightarrow> summarizer \<Rightarrow> bool" where
  "summarizer_contract b s =
     (\<forall>rs. rs = [] \<or> \<not> list_all (\<lambda>r. length r = b) rs \<or> length (s rs) = b)"

definition encoder_width :: "model \<Rightarrow> string \<Rightarrow> nat" where
  "encoder_width m fn = (case field_encoders m fn of None \<Rightarrow> 0 | Some enc \<Rightarrow> output_size enc)"

text \<open>
  The model: a bottleneck width \<open>b\<close>; an encoder and a decoder for each data field; for
  each entity type, data fields of the schema, a projector, autoencoders with bottlenecks
  of width \<open>b\<close>, the first of which declares a width that the depth-0 input has (line 201
  cuts the outputs to it), and, when the depth is not 0, a summarizer for each of its
  relations in the table that \<^verbatim>\<open>forward\<close> reads it from.
\<close>

definition wf_entity_type :: "model \<Rightarrow> nat \<Rightarrow> entity_type \<Rightarrow> bool" where
  "wf_entity_type m b t =
     (list_all (\<lambda>fn. fn \<in> field_name ` set (data_fields (schema m))) (et_data_fields t)
      \<and> (case entity_autoencoders m (et_name t) of
           None \<Rightarrow> False
         | Some aes \<Rightarrow>
             aes \<noteq> [] \<and> list_all (ae_contract b) aes
             \<and> ae_output_size (aes ! 0)
                 \<le> 8 + sum_list (map (encoder_width m) (et_data_fields t)))
      \<and> (case projectors m (et_name t) of
           None \<Rightarrow> False
         | Some p \<Rightarrow> shape_preserving (projected_size m) p)
      \<and> (if 0 < depth m
         then list_all (\<lambda>rel. case relation_target_summarizers m rel of
                                None \<Rightarrow> False
                              | Some s \<Rightarrow> summarizer_contract b s)
                (et_relation_fields t)
              \<and> (if reverse_relations m
                 then list_all (\<lambda>rel. case relation_source_summarizers m rel of
                                        None \<Rightarrow> False
                                      | Some s \<Rightarrow> summarizer_contract b s)
                        (et_reverse_relation_fields t)
                 else True)
         else True))"

definition wf_model :: "model \<Rightarrow> nat \<Rightarrow> bool" where
  "wf_model m b =
     (bottleneck_size m = Some b
      \<and> list_all (\<lambda>f. (case field_encoders m (field_name f) of
                         None \<Rightarrow> False
                       | Some enc \<Rightarrow> shape_preserving (output_size enc) (encode enc))
                      \<and> field_decoders m (field_name f) \<noteq> None)
          (data_fields (schema m))
      \<and> list_all (wf_entity_type m b) (entity_types (schema m)))"

text \<open>
  The index sets of line 139-155 as the later steps use them: indices below \<open>N\<close> for each
  data field and each entity type.
\<close>

definition ix_ok :: "schema \<Rightarrow> batch \<Rightarrow> indexing \<Rightarrow> bool" where
  "ix_ok sc es ix =
     (list_all (\<lambda>f. case field_indices ix (field_name f) of
                       None \<Rightarrow> False
                     | Some fi \<Rightarrow> list_all (\<lambda>i. i < length (types es)) fi)
        (data_fields sc)
      \<and> list_all (\<lambda>t. case entity_indices ix (et_name t) of
                         None \<Rightarrow> False
                       | Some ei \<Rightarrow> list_all (\<lambda>i. i < length (types es)) ei)
          (entity_types sc))"

text \<open>
  The state of the loops over the autoencoders: a bottleneck tensor of \<open>N\<close> rows of \<open>b\<close>
  entries, and outputs that have a row for each entity of their type and are no narrower
  than the first autoencoder of the type declares.
\<close>

definition output_ok :: "model \<Rightarrow> indexing \<Rightarrow> string \<Rightarrow> tensor \<Rightarrow> bool" where
  "output_ok m ix n out =
     (case entity_autoencoders m n of
        None \<Rightarrow> False
      | Some aes \<Rightarrow>
          (case entity_indices ix n of
             None \<Rightarrow> False
           | Some ei \<Rightarrow> ae_output_size (aes ! 0) \<le> ncols out \<and> length (rows out) = length ei))"

definition bottlenecks_ok :: "batch \<Rightarrow> nat \<Rightarrow> tensor \<Rightarrow> bool" where
  "bottlenecks_ok es b t = (ncols t = b \<and> length (rows t) = length (types es) \<and> wf_tensor t)"

definition state_ok :: "model \<Rightarrow> batch \<Rightarrow> indexing \<Rightarrow> nat \<Rightarrow> ae_state \<Rightarrow> bool" where
  "state_ok m es ix b s =
     (bottlenecks_ok es b (snd s) \<and> (\<forall>n out. fst s n = Some out \<longrightarrow> output_ok m ix n out))"

section \<open>Basic facts\<close>

lemma ebind_simps [simp]: "ebind (Inl e) f = Inl e" "ebind (Inr x) f = f x"
  by (simp_all add: ebind_def)

lemma ebind_Inr: "ebind x f = Inr y \<longleftrightarrow> (\<exists>v. x = Inr v \<and> f v = Inr y)"
  by (cases x) simp_all

lemma mapM_Inr:
  "mapM f xs = Inr ys \<Longrightarrow> list_all2 (\<lambda>x y. f x = Inr y) xs ys"
proof (induction xs arbitrary: ys)
  case Nil
  then show ?case by simp
next
  case (Cons x xs)
  then show ?case by (auto simp: ebind_Inr)
qed

lemma mapM_mem:
  "mapM f xs = Inr ys \<Longrightarrow> x \<in> set xs \<Longrightarrow> \<exists>y\<in>set ys. f x = Inr y"
proof (induction xs arbitrary: ys)
  case Nil
  then show ?case by simp
next
  case (Cons a xs)
  from Cons.prems(1) obtain b bs where b: "f a = Inr b" "mapM f xs = Inr bs" "ys = b # bs"
    by (auto simp: ebind_Inr)
  show ?case
  proof (cases "x = a")
    case True
    with b show ?thesis by simp
  next
    case False
    with Cons.prems(2) have "x \<in> set xs" by simp
    from Cons.IH[OF b(2) this] b(3) show ?thesis by auto
  qed
qed

lemma mapM_mem_rev:
  "mapM f xs = Inr ys \<Longrightarrow> y \<in> set ys \<Longrightarrow> \<exists>x\<in>set xs. f x = Inr y"
proof (induction xs arbitrary: ys)
  case Nil
  then show ?case by simp
next
  case (Cons a xs)
  from Cons.prems(1) obtain b bs where b: "f a = Inr b" "mapM f xs = Inr bs" "ys = b # bs"
    by (auto simp: ebind_Inr)
  show ?case
  proof (cases "y = b")
    case True
    with b show ?thesis by simp
  next
    case False
    with Cons.prems(2) b(3) have "y \<in> set bs" by simp
    from Cons.IH[OF b(2) this] show ?thesis by auto
  qed
qed

lemma getitem_Inr: "getitem d k = Inr v \<longleftrightarrow> d k = Some v"
  by (simp add: getitem_def split: option.splits)

lemma dict_of_SomeD: "dict_of kvs k = Some v \<Longrightarrow> (k, v) \<in> set kvs"
  by (auto simp: dict_of_def dest: map_of_SomeD)

lemma dict_of_key: "(k, v) \<in> set kvs \<Longrightarrow> \<exists>w. dict_of kvs k = Some w"
proof -
  assume "(k, v) \<in> set kvs"
  then have "k \<in> fst ` set (rev kvs)" by force
  then have "map_of (rev kvs) k \<noteq> None" by (simp add: map_of_eq_None_iff)
  then show ?thesis by (auto simp: dict_of_def)
qed

text \<open>The definitions of the forward pass and of the small instance, for evaluation.\<close>

lemmas tensor_defs =
  zeros_def masked_select_def mask_and_def index_select_def index_put_def row_put_def
  narrow_def row_sum_def getitem_def dict_of_def transpose_matrix_def

lemmas forward_defs =
  field_name_def field_type_name_def attrs_def num_entities_def index_space_def
  field_mask_def entity_mask_def index_field_def index_entity_field_def
  index_entity_type_def compute_indexing_def encode_field_def encode_fields_def
  autoencoder_input_def autoencoder_inputs_def depth0_step_def related_indices_def
  relation_reps_def other_reps_def depth_input_def depth_step_def depth_loop_def project_def
  decode_def
  forward_def

lemmas init_defs =
  init_bottleneck_size_def init_field_encoders_def init_boundary_size_def
  add_bottlenecks_def init_entity_autoencoders_def init_projector_def
  init_projected_size_def module_key_ok_def ModuleDict_def GraphAutoencoder_init_def

lemmas ex_defs =
  ex_Person_def ex_Doc_def ex_name_def ex_title_def ex_schema_def ex_batch_def
  ex_adjacency_def ex_rows_def ex_summarizer_def ex_Autoencoder_def ex_factories_def
  CategoricalField_init_def SequentialField_init_def Field_init_def

section \<open>The small instance, evaluated\<close>

lemma ex_model_init:
  "GraphAutoencoder_init ex_factories ex_schema 2 [3, 1] False None 8 = Inr (ex_model 2 [3, 1] False 8)"
  by (simp add: ex_model_def init_defs ex_defs forward_defs tensor_defs Let_def)

lemma ex_model_name:
  "field_encoders (ex_model 2 [3, 1] False 8) ''name'' = Some \<lparr>output_size = 2, encode = ex_rows 2 (\<lambda>x. x)\<rparr>"
  by (simp add: ex_model_def init_defs ex_defs forward_defs tensor_defs Let_def)

lemma ex_ix: "compute_indexing ex_schema ex_batch = Inr (ex_indexing ex_batch)"
  by (simp add: ex_indexing_def forward_defs tensor_defs ex_defs Let_def)

lemma ex_ix_missing: "compute_indexing ex_schema ex_missing_batch = Inr (ex_indexing ex_missing_batch)"
  by (simp add: ex_indexing_def ex_missing_batch_def forward_defs tensor_defs ex_defs Let_def)

lemmas ex_eval = ex_model_summarizers_def ex_bottlenecks_def ex_model_def ex_indexing_def
  ex_missing_batch_def init_defs forward_defs tensor_defs ex_defs Let_def eval_nat_numeral

section \<open>Repeated observation\<close>

lemma observe_items_keys:
  "py_key ` set (observe_items kvs cs) = py_key ` set cs \<union> py_key ` fst ` set kvs"
  by (induction kvs cs rule: observe_items.induct) auto

lemma observe_items_known:
  "py_key ` fst ` set kvs \<subseteq> py_key ` set cs \<Longrightarrow> observe_items kvs cs = cs"
  by (induction kvs cs rule: observe_items.induct) auto

lemma observe_items_idem: "observe_items kvs (observe_items kvs cs) = observe_items kvs cs"
  by (rule observe_items_known) (simp add: observe_items_keys)

lemma keyed_append: "keyed (L @ [(v, n)]) = keyed L @ [(py_key v, n)]"
  by (simp add: keyed_def)

lemma setdefault_idem: "setdefault L v = Inr (L', i) \<Longrightarrow> setdefault L' v = Inr (L', i)"
  by (auto simp: setdefault_def dict_get_def keyed_append map_add_def split: if_splits option.splits)

lemma setdefault_err: "setdefault L v = Inl e \<Longrightarrow> setdefault L' v = Inl e"
  by (auto simp: setdefault_def split: if_splits option.splits)

lemma setdefault_mono:
  "setdefault L v = Inr (L', i) \<Longrightarrow> dict_get L k = Some j \<Longrightarrow> dict_get L' k = Some j"
  by (auto simp: setdefault_def dict_get_def keyed_append map_add_def split: if_splits option.splits)

lemma setdefault_hit: "setdefault L v = Inr (L', i) \<Longrightarrow> hashable v \<and> dict_get L' v = Some i"
  by (auto simp: setdefault_def dict_get_def keyed_append map_add_def split: if_splits option.splits)

lemma observe_elems_mono:
  "observe_elems vs L R = ((L', R'), r) \<Longrightarrow> dict_get L k = Some j \<Longrightarrow> dict_get L' k = Some j"
proof (induction vs arbitrary: L R)
  case Nil
  then show ?case by simp
next
  case (Cons v vs)
  show ?case
  proof (cases "setdefault L v")
    case (Inl e)
    with Cons.prems show ?thesis by simp
  next
    case (Inr b)
    obtain L1 i where b: "b = (L1, i)" by (cases b)
    from Cons.prems Inr b have "observe_elems vs L1 (R(i \<mapsto> v)) = ((L', R'), r)" by simp
    moreover have "dict_get L1 k = Some j" using setdefault_mono Inr b Cons.prems(2) by blast
    ultimately show ?thesis using Cons.IH by blast
  qed
qed

lemma observe_elems_known:
  "\<forall>v\<in>set vs. hashable v \<and> dict_get L v \<noteq> None \<Longrightarrow>
   observe_elems vs L R = ((L, fold (assign L) vs R), None)"
  by (induction vs arbitrary: R) (auto simp: setdefault_def assign_def)

lemma observe_elems_fold:
  "observe_elems vs L R = ((L', R'), r) \<Longrightarrow>
   \<exists>us. (case r of None \<Rightarrow> us = vs | Some e \<Rightarrow> (\<exists>x ws. vs = us @ x # ws \<and> setdefault L' x = Inl e))
       \<and> (\<forall>v\<in>set us. hashable v \<and> dict_get L' v \<noteq> None) \<and> R' = fold (assign L') us R"
proof (induction vs arbitrary: L R)
  case Nil
  then show ?case by auto
next
  case (Cons v vs)
  show ?case
  proof (cases "setdefault L v")
    case (Inl e)
    with Cons.prems have "L' = L" "R' = R" "r = Some e" by auto
    with Inl show ?thesis by (intro exI[of _ "[]"]) auto
  next
    case (Inr b)
    obtain L1 i where b: "b = (L1, i)" by (cases b)
    from Cons.prems Inr b have rest: "observe_elems vs L1 (R(i \<mapsto> v)) = ((L', R'), r)" by simp
    from Cons.IH[OF rest] obtain us where
      us: "(case r of None \<Rightarrow> us = vs | Some e \<Rightarrow> (\<exists>x ws. vs = us @ x # ws \<and> setdefault L' x = Inl e))"
          "\<forall>v\<in>set us. hashable v \<and> dict_get L' v \<noteq> None" "R' = fold (assign L') us (R(i \<mapsto> v))"
      by blast
    have hit: "hashable v" "dict_get L1 v = Some i" using setdefault_hit Inr b by blast+
    then have v': "dict_get L' v = Some i" using observe_elems_mono[OF rest] by blast
    have "R' = fold (assign L') (v # us) R" using us(3) v' by (simp add: assign_def)
    moreover have "\<forall>w\<in>set (v # us). hashable w \<and> dict_get L' w \<noteq> None" using us(2) hit(1) v' by simp
    moreover have "(case r of None \<Rightarrow> v # us = v # vs | Some e \<Rightarrow> (\<exists>x ws. v # vs = (v # us) @ x # ws \<and> setdefault L' x = Inl e))"
      using us(1) by (cases r) auto
    ultimately show ?thesis by blast
  qed
qed

lemma find_app: "find P (xs @ ys) = (case find P xs of Some x \<Rightarrow> Some x | None \<Rightarrow> find P ys)"
  by (induction xs) auto

lemma assign_apply: "assign L v R k = (if k = the (dict_get L v) then Some v else R k)"
  by (simp add: assign_def)

lemma fold_assign_apply:
  "fold (assign L) vs R k =
     (case find (\<lambda>v. the (dict_get L v) = k) (rev vs) of Some v \<Rightarrow> Some v | None \<Rightarrow> R k)"
proof (induction vs arbitrary: R)
  case Nil
  then show ?case by simp
next
  case (Cons v vs)
  have "fold (assign L) (v # vs) R k = fold (assign L) vs (assign L v R) k"
    by simp
  also have "\<dots> = (case find (\<lambda>v. the (dict_get L v) = k) (rev vs) of
                       Some w \<Rightarrow> Some w | None \<Rightarrow> assign L v R k)"
    by (rule Cons.IH)
  also have "\<dots> = (case find (\<lambda>v. the (dict_get L v) = k) (rev (v # vs)) of
                       Some w \<Rightarrow> Some w | None \<Rightarrow> R k)"
    unfolding assign_def by (simp add: find_app split: option.splits)
  finally show ?case .
qed

lemma fold_assign_idem: "fold (assign L) vs (fold (assign L) vs R) = fold (assign L) vs R"
  by (rule ext) (simp add: fold_assign_apply split: option.splits)

lemma observe_elems_append:
  "observe_elems (us @ ws) L R =
     (case observe_elems us L R of
        ((L1, R1), None) \<Rightarrow> observe_elems ws L1 R1
      | (s, Some e) \<Rightarrow> (s, Some e))"
  by (induction us arbitrary: L R) (auto split: sum.splits prod.splits option.splits)

lemma observe_elems_idem:
  assumes "observe_elems vs L R = ((L', R'), r)"
  shows "observe_elems vs L' R' = ((L', R'), r)"
proof -
  from observe_elems_fold[OF assms] obtain us where
    us: "(case r of None \<Rightarrow> us = vs | Some e \<Rightarrow> (\<exists>x ws. vs = us @ x # ws \<and> setdefault L' x = Inl e))"
        "\<forall>v\<in>set us. hashable v \<and> dict_get L' v \<noteq> None" "R' = fold (assign L') us R"
    by blast
  have pre: "observe_elems us L' R' = ((L', R'), None)"
    using observe_elems_known[OF us(2), of R'] us(3) fold_assign_idem by simp
  show ?thesis
  proof (cases r)
    case None
    with us(1) pre show ?thesis by simp
  next
    case (Some e)
    with us(1) obtain x ws where "vs = us @ x # ws" "setdefault L' x = Inl e" by auto
    with pre Some show ?thesis by (simp add: observe_elems_append)
  qed
qed

lemma double_exponent_big: "double_exponent 9007199254740993 = 1"
  by (subst double_exponent.simps, simp, subst double_exponent.simps, simp)

lemma float_of_int_big: "float_of_int 9007199254740993 = Inr (Fin 9007199254740992)"
  by (simp add: float_of_int_def round_to_double_def double_exponent_big Let_def)

lemma float_of_int_small: "\<bar>i\<bar> < 2 ^ 53 \<Longrightarrow> float_of_int i = Inr (Fin (of_int i))"
  by (subst float_of_int_def, subst round_to_double_def, subst double_exponent.simps)
     (auto simp: Let_def)

lemma fl_lt_irrefl: "\<not> fl_lt x x"
  by (cases x) simp_all

lemma py_max_idem: "py_max m v = Inr m' \<Longrightarrow> py_max m' v = Inr m'"
  by (cases v) (auto simp: fl_gt_def fl_lt_irrefl split: if_splits)

lemma py_min_idem: "py_min m v = Inr m' \<Longrightarrow> py_min m' v = Inr m'"
  by (cases v) (auto simp: fl_lt_irrefl split: if_splits)

lemma numeric_seen_idem:
  "fst (observe_value p (fst (observe_value p (NumericField a (Some mx) (Some mn)) v)) v)
     = fst (observe_value p (NumericField a (Some mx) (Some mn)) v)"
proof (cases "py_float p v")
  case (Inl e)
  then show ?thesis by simp
next
  case (Inr retval)
  show ?thesis
  proof (cases "py_max mx v")
    case (Inl e)
    with Inr show ?thesis by simp
  next
    case mx': (Inr mx')
    show ?thesis
    proof (cases "py_min mn v")
      case (Inl e)
      with Inr mx' py_max_idem[OF mx'] show ?thesis by simp
    next
      case mn': (Inr mn')
      with Inr mx' py_max_idem[OF mx'] py_min_idem[OF mn'] show ?thesis by simp
    qed
  qed
qed

text \<open>
  X3. For every field codec, every state of the field other than that of a
  \<^verbatim>\<open>NumericField\<close> whose \<^verbatim>\<open>max_val\<close> or \<^verbatim>\<open>min_val\<close> is \<^verbatim>\<open>None\<close>, and every raw
  value \<open>v\<close>, observing \<open>v\<close> (the same object) a second time leaves the field (its
  \<open>empty\<close> flag, its categories, its lookup tables, its maximal length, its maximum and
  its minimum) as the first observation left it, also when an observation raises.
\<close>

theorem observe_value_idempotent_seen:
  assumes "\<not> unseen_numeric f"
  shows "fst (observe_value p (fst (observe_value p f v)) v) = fst (observe_value p f v)"
proof (cases f)
  case (NumericField a mx mn)
  with assms obtain x y where "mx = Some x" "mn = Some y"
    by (cases mx; cases mn) (simp_all add: unseen_numeric_def)
  with NumericField show ?thesis by (simp only: numeric_seen_idem)
next
  case (DistributionField a cs)
  then show ?thesis by (cases "py_items v") (simp_all add: observe_items_idem)
next
  case (CategoricalField a L R)
  show ?thesis
  proof (cases "setdefault L v")
    case (Inl e)
    with CategoricalField show ?thesis by simp
  next
    case (Inr b)
    obtain L1 i where b: "b = (L1, i)" by (cases b)
    with Inr have "setdefault L1 v = Inr (L1, i)" using setdefault_idem by blast
    with CategoricalField Inr b show ?thesis by simp
  qed
next
  case (SequentialField a L R n)
  show ?thesis
  proof (cases "py_iter v")
    case (Inl e)
    with SequentialField show ?thesis by simp
  next
    case (Inr xs)
    obtain L1 R1 r where o: "observe_elems xs L R = ((L1, R1), r)"
      by (metis prod.exhaust)
    with SequentialField Inr observe_elems_idem[OF o] show ?thesis
      by (cases r) simp_all
  qed
next
  case (CharacterField a L R n)
  show ?thesis
  proof (cases "py_iter v")
    case (Inl e)
    with CharacterField show ?thesis by simp
  next
    case (Inr xs)
    obtain L1 R1 r where o: "observe_elems xs L R = ((L1, R1), r)"
      by (metis prod.exhaust)
    with CharacterField Inr observe_elems_idem[OF o] show ?thesis
      by (cases r) simp_all
  qed
qed simp_all

text \<open>
  Two instances: the value \<open>b\<close> shown twice to a categorical field that knows \<open>a\<close>, and
  the int 3 shown twice to a numeric field whose maximum and minimum are \<open>1.0\<close>.
\<close>

theorem observe_value_idempotent_seen_witness:
  "\<not> unseen_numeric (CategoricalField (Field_init ''name'' ''categorical'')
                         [(PMissing 0, 0), (PStr ''a'', 1)] [0 \<mapsto> PMissing 1, 1 \<mapsto> PStr ''a''])
   \<and> fst (observe_value (\<lambda>s. None)
          (fst (observe_value (\<lambda>s. None)
                  (CategoricalField (Field_init ''name'' ''categorical'')
                     [(PMissing 0, 0), (PStr ''a'', 1)] [0 \<mapsto> PMissing 1, 1 \<mapsto> PStr ''a''])
                  (PStr ''b'')))
          (PStr ''b''))
   = fst (observe_value (\<lambda>s. None)
            (CategoricalField (Field_init ''name'' ''categorical'')
               [(PMissing 0, 0), (PStr ''a'', 1)] [0 \<mapsto> PMissing 1, 1 \<mapsto> PStr ''a''])
            (PStr ''b''))
   \<and> \<not> unseen_numeric (NumericField (Field_init ''n'' ''numeric'')
                          (Some (NFloat (Fin 1))) (Some (NFloat (Fin 1))))
   \<and> fst (observe_value (\<lambda>s. None)
            (NumericField (Field_init ''n'' ''numeric'') (Some (NFloat (Fin 1))) (Some (NFloat (Fin 1))))
            (PInt 3))
     = NumericField \<lparr>name = ''n'', type_name = ''numeric'', empty = False\<rparr>
         (Some (NInt 3)) (Some (NFloat (Fin 1)))
   \<and> fst (observe_value (\<lambda>s. None)
            (NumericField \<lparr>name = ''n'', type_name = ''numeric'', empty = False\<rparr>
               (Some (NInt 3)) (Some (NFloat (Fin 1))))
            (PInt 3))
     = NumericField \<lparr>name = ''n'', type_name = ''numeric'', empty = False\<rparr>
         (Some (NInt 3)) (Some (NFloat (Fin 1)))"
proof -
  have n: "\<not> unseen_numeric (CategoricalField (Field_init ''name'' ''categorical'')
                         [(PMissing 0, 0), (PStr ''a'', 1)] [0 \<mapsto> PMissing 1, 1 \<mapsto> PStr ''a''])"
    by (simp add: unseen_numeric_def)
  have k: "\<not> unseen_numeric (NumericField (Field_init ''n'' ''numeric'')
                          (Some (NFloat (Fin 1))) (Some (NFloat (Fin 1))))"
    by (simp add: unseen_numeric_def)
  have e: "fst (observe_value (\<lambda>s. None)
            (NumericField (Field_init ''n'' ''numeric'') (Some (NFloat (Fin 1))) (Some (NFloat (Fin 1))))
            (PInt 3))
     = NumericField \<lparr>name = ''n'', type_name = ''numeric'', empty = False\<rparr>
         (Some (NInt 3)) (Some (NFloat (Fin 1)))"
    by (simp add: Field_init_def float_of_int_small fl_gt_def)
  from observe_value_idempotent_seen[OF k, of "\<lambda>s. None" "PInt 3"]
  have "fst (observe_value (\<lambda>s. None)
            (NumericField \<lparr>name = ''n'', type_name = ''numeric'', empty = False\<rparr>
               (Some (NInt 3)) (Some (NFloat (Fin 1))))
            (PInt 3))
     = NumericField \<lparr>name = ''n'', type_name = ''numeric'', empty = False\<rparr>
         (Some (NInt 3)) (Some (NFloat (Fin 1)))"
    unfolding e .
  with observe_value_idempotent_seen[OF n] n k e show ?thesis by blast
qed

text \<open>
  A NaN is a key only as the object that made it: a second NaN object gets an index of its
  own, the same object does not.
\<close>

lemma nan_objects_are_keys_of_their_own:
  "setdefault [(PMissing 0, 0), (PFloat 1 NaN, 1)] (PFloat 2 NaN)
     = Inr ([(PMissing 0, 0), (PFloat 1 NaN, 1), (PFloat 2 NaN, 2)], 2)"
  "setdefault [(PMissing 0, 0), (PFloat 1 NaN, 1)] (PFloat 1 NaN)
     = Inr ([(PMissing 0, 0), (PFloat 1 NaN, 1)], 1)"
  "setdefault [(PMissing 0, 0), (PInt 1, 1)] (PFloat 7 (Fin 1))
     = Inr ([(PMissing 0, 0), (PInt 1, 1)], 1)"
  by (simp_all add: setdefault_def dict_get_def keyed_def)

text \<open>
  C10. The claim is that for every codec and every raw value, a second observation leaves
  the state as the first left it. A new \<^verbatim>\<open>NumericField\<close> that is shown the int
  \<open>2^53 + 1 = 9007199254740993\<close> stores \<^verbatim>\<open>float(v)\<close>, which is \<open>9007199254740992.0\<close>, as
  its maximum and its minimum; shown the same int again, it compares the maximum with the
  raw int (line 80), which is greater, and the maximum becomes the int \<open>9007199254740993\<close>.
\<close>

theorem numeric_observation_changes_state:
  "fst (observe_value (\<lambda>s. None) (NumericField_init ''n'' ''numeric'') (PInt 9007199254740993))
     = NumericField \<lparr>name = ''n'', type_name = ''numeric'', empty = False\<rparr>
         (Some (NFloat (Fin 9007199254740992))) (Some (NFloat (Fin 9007199254740992)))
   \<and> fst (observe_value (\<lambda>s. None)
            (fst (observe_value (\<lambda>s. None) (NumericField_init ''n'' ''numeric'')
                    (PInt 9007199254740993)))
            (PInt 9007199254740993))
     = NumericField \<lparr>name = ''n'', type_name = ''numeric'', empty = False\<rparr>
         (Some (NInt 9007199254740993)) (Some (NFloat (Fin 9007199254740992)))"
  by (simp add: NumericField_init_def Field_init_def float_of_int_big fl_gt_def)

section \<open>The round trip of the codecs\<close>

lemma SequentialField_decode_raises: "v \<noteq> [] \<Longrightarrow> SequentialField_decode R v = Inl PyException"
  by (cases v) (simp_all add: SequentialField_decode_def skipped_values_def)

lemma SequentialField_decode_empty: "SequentialField_decode R [] = Inr (PStr [])"
  by (simp add: SequentialField_decode_def)

text \<open>
  C7. The claim is that \<open>encode(decode(encode(v))) = encode(v)\<close> for every observed value of
  a categorical or a sequential field. For the sequential field that was shown the string
  \<open>ab\<close>, \<open>encode\<close> of \<open>ab\<close> is \<open>[1, 2]\<close> and \<open>decode\<close> of \<open>[1, 2]\<close> raises, so the
  round trip raises instead of returning \<open>[1, 2]\<close>.
\<close>

theorem sequential_roundtrip_raises:
  "(case ex_title_observed of
      SequentialField a L R n \<Rightarrow>
        L = [(PNone, 0), (PStr ''a'', 1), (PStr ''b'', 2)]
        \<and> SequentialField_encode L (PStr ''ab'') = Inr [1, 2]
        \<and> SequentialField_decode R [1, 2] = Inl PyException
        \<and> sequential_roundtrip L R (PStr ''ab'') = Inl PyException
    | _ \<Rightarrow> False)"
  by (simp add: ex_title_observed_def ex_title_def SequentialField_init_def Field_init_def
        setdefault_def dict_get_def keyed_def sequential_roundtrip_def SequentialField_encode_def
        getitem_def SequentialField_decode_def skipped_values_def)

lemma known_roundtrip:
  "known L R v \<Longrightarrow> categorical_roundtrip L R v = CategoricalField_encode L v \<and> CategoricalField_encode L v \<noteq> Inr None"
  by (auto simp: known_def categorical_roundtrip_def CategoricalField_encode_def
        CategoricalField_decode_def split: option.splits)

lemma known_observe_other:
  assumes "known L R v" "setdefault L x = Inr (L', i)"
  shows "known L' (R(i \<mapsto> x)) v"
  using assms
  by (auto simp: known_def setdefault_def dict_get_def keyed_append map_add_def
      split: option.splits if_splits)

lemma known_observe_self:
  assumes "setdefault L x = Inr (L', i)"
  shows "known L' (R(i \<mapsto> x)) x"
  using assms
  by (auto simp: known_def setdefault_def dict_get_def keyed_append map_add_def
      split: option.splits if_splits)

lemma observe_values_categorical:
  "observe_values p (CategoricalField a L R) vs = Inr f' \<Longrightarrow>
   \<exists>a' L' R'. f' = CategoricalField a' L' R' \<and> (\<forall>v. (known L R v \<or> v \<in> set vs) \<longrightarrow> known L' R' v)"
proof (induction vs arbitrary: a L R)
  case Nil
  then show ?case by auto
next
  case (Cons x vs)
  show ?case
  proof (cases "setdefault L x")
    case (Inl e)
    with Cons.prems show ?thesis by simp
  next
    case (Inr b)
    obtain L1 i where b: "b = (L1, i)" by (cases b)
    from Cons.prems Inr b
    have "observe_values p (CategoricalField (a\<lparr>empty := False\<rparr>) L1 (R(i \<mapsto> x))) vs = Inr f'"
      by simp
    from Cons.IH[OF this] obtain a' L' R' where
      f': "f' = CategoricalField a' L' R'"
      and k: "\<forall>v. (known L1 (R(i \<mapsto> x)) v \<or> v \<in> set vs) \<longrightarrow> known L' R' v"
      by blast
    have "known L' R' v" if "known L R v \<or> v \<in> set (x # vs)" for v
      using that k known_observe_other[OF _ Inr[unfolded b]] known_observe_self[OF Inr[unfolded b]]
      by auto
    with f' show ?thesis by blast
  qed
qed

text \<open>
  X1. For a categorical field in any state, after a list of values was observed without an
  exception, every value \<open>v\<close> of the list has an index and
  \<open>encode(decode(encode(v))) = encode(v)\<close>.
\<close>

theorem categorical_roundtrip_observed:
  assumes "observe_values p (CategoricalField a L R) vs = Inr (CategoricalField a' L' R')"
    and "v \<in> set vs"
  shows "categorical_roundtrip L' R' v = CategoricalField_encode L' v
         \<and> CategoricalField_encode L' v \<noteq> Inr None"
  using observe_values_categorical[OF assms(1)] assms(2) known_roundtrip by blast

theorem categorical_roundtrip_observed_witness:
  "PStr ''y'' \<in> set [PStr ''x'', PStr ''y'']
   \<and> (case observe_values (\<lambda>s. None) ex_name [PStr ''x'', PStr ''y''] of
        Inr (CategoricalField a L R) \<Rightarrow>
          categorical_roundtrip L R (PStr ''y'') = CategoricalField_encode L (PStr ''y'')
          \<and> CategoricalField_encode L (PStr ''y'') = Inr (Some 2)
      | _ \<Rightarrow> False)"
proof -
  obtain a L R where
    o: "observe_values (\<lambda>s. None) (CategoricalField (Field_init ''name'' ''categorical'')
          [(PMissing 0, 0)] [0 \<mapsto> PMissing 1]) [PStr ''x'', PStr ''y'']
        = Inr (CategoricalField a L R)"
    and L: "L = [(PMissing 0, 0), (PStr ''x'', 1), (PStr ''y'', 2)]"
    by (simp add: setdefault_def dict_get_def keyed_def)
  have e: "CategoricalField_encode L (PStr ''y'') = Inr (Some 2)"
    by (simp add: L CategoricalField_encode_def dict_get_def keyed_def)
  from categorical_roundtrip_observed[OF o, of "PStr ''y''"] o e show ?thesis
    by (simp add: ex_name_def CategoricalField_init_def)
qed

section \<open>The index sets of the forward pass\<close>

lemma masked_select_mem:
  "masked_select xs a = Inr ia \<Longrightarrow>
   x \<in> set ia \<longleftrightarrow> (\<exists>j<length xs. x = xs ! j \<and> a ! j)"
proof -
  assume "masked_select xs a = Inr ia"
  then have l: "length a = length xs" and ia: "ia = map fst (filter snd (zip xs a))"
    by (auto simp: masked_select_def split: if_splits)
  have "x \<in> set ia \<longleftrightarrow> (\<exists>p\<in>set (zip xs a). snd p \<and> fst p = x)"
    by (auto simp: ia)
  also have "\<dots> \<longleftrightarrow> (\<exists>j<length xs. x = xs ! j \<and> a ! j)"
    using l by (auto simp: set_zip)
  finally show ?thesis .
qed

lemma mask_and_nth:
  "mask_and a b = Inr ab \<Longrightarrow> length ab = length a \<and> length b = length a
     \<and> (\<forall>j<length a. ab ! j = (a ! j \<and> b ! j))"
  by (auto simp: mask_and_def split: if_splits)

lemma masked_select_length: "masked_select xs a = Inr ia \<Longrightarrow> length a = length xs"
  by (auto simp: masked_select_def split: if_splits)

lemma masked_select_and:
  assumes "masked_select xs a = Inr ia" "masked_select xs b = Inr ib"
    and "mask_and a b = Inr ab" "masked_select xs ab = Inr iab" "distinct xs"
  shows "set iab = set ia \<inter> set ib"
proof -
  have la: "length a = length xs" using assms(1) by (rule masked_select_length)
  have ab: "\<forall>j<length xs. ab ! j = (a ! j \<and> b ! j)"
    using mask_and_nth[OF assms(3)] la by simp
  show ?thesis
  proof (rule set_eqI)
    fix x
    show "x \<in> set iab \<longleftrightarrow> x \<in> set ia \<inter> set ib"
      unfolding Int_iff masked_select_mem[OF assms(1)] masked_select_mem[OF assms(2)]
        masked_select_mem[OF assms(4)]
      using ab assms(5) by (auto simp: nth_eq_iff_index_eq)
  qed
qed


lemma map_of_triples:
  "map_of (map (\<lambda>(n, m, i). (n, m)) gs) k = Some m \<Longrightarrow>
   map_of (map (\<lambda>(n, m, i). (n, i)) gs) k = Some i \<Longrightarrow> (k, m, i) \<in> set gs"
  by (induction gs) (auto split: if_splits)

lemma dict_of_triples:
  "dict_of (map (\<lambda>(n, m, i). (n, m)) fs) k = Some m \<Longrightarrow>
   dict_of (map (\<lambda>(n, m, i). (n, i)) fs) k = Some i \<Longrightarrow> (k, m, i) \<in> set fs"
  using map_of_triples[of "rev fs" k m i] by (simp add: dict_of_def rev_map)

lemma index_field_Inr:
  "index_field es f = Inr (n, m, i) \<Longrightarrow>
   n = field_name f \<and> field_mask es f = Inr m \<and> masked_select (index_space es) m = Inr i"
  by (auto simp: index_field_def ebind_Inr)

lemma index_entity_field_Inr:
  "index_entity_field es fmasks n em fn = Inr (k, efm, efi) \<Longrightarrow>
   k = (n, fn) \<and> (\<exists>fm. fmasks fn = Some fm \<and> mask_and em fm = Inr efm)
     \<and> masked_select (index_space es) efm = Inr efi"
  by (auto simp: index_entity_field_def ebind_Inr getitem_Inr)

lemma index_entity_type_Inr:
  "index_entity_type es fmasks t = Inr (n, em, ei, efs) \<Longrightarrow>
   n = et_name t \<and> em = entity_mask es n \<and> masked_select (index_space es) em = Inr ei
     \<and> mapM (index_entity_field es fmasks n em) (et_data_fields t) = Inr efs"
  by (auto simp: index_entity_type_def ebind_Inr Let_def)

text \<open>
  C9. When the index sets of a batch are computed (lines 139-155), for every entity type
  \<open>t\<close> of the schema and every field name \<open>f\<close> that \<open>t\<close> declares, the three dicts have
  the keys \<open>t\<close>, \<open>f\<close> and \<open>(t, f)\<close>, and the indices stored for \<open>(t, f)\<close> are exactly
  those that are both in the indices of \<open>t\<close> and in the indices of \<open>f\<close>.
\<close>

theorem entity_field_indices_intersection:
  assumes ok: "compute_indexing sc es = Inr ix"
    and t: "t \<in> set (entity_types sc)" and f: "f \<in> set (et_data_fields t)"
  shows "\<exists>ei fi efi. entity_indices ix (et_name t) = Some ei
           \<and> field_indices ix f = Some fi
           \<and> entity_field_indices ix (et_name t, f) = Some efi
           \<and> set efi = set ei \<inter> set fi"
proof -
  let ?idx = "index_space es"
  from ok obtain fs ts where
    fs: "mapM (index_field es) (data_fields sc) = Inr fs"
    and ts: "mapM (index_entity_type es (dict_of (map (\<lambda>(n, m, i). (n, m)) fs))) (entity_types sc) = Inr ts"
    and ix: "ix = \<lparr>entity_indices = dict_of (map (\<lambda>(n, em, ei, efs). (n, ei)) ts),
          entity_masks = dict_of (map (\<lambda>(n, em, ei, efs). (n, em)) ts),
          field_indices = dict_of (map (\<lambda>(n, m, i). (n, i)) fs),
          field_masks = dict_of (map (\<lambda>(n, m, i). (n, m)) fs),
          entity_field_indices =
            dict_of (concat (map (\<lambda>(n, em, ei, efs). map (\<lambda>(k, efm, efi). (k, efi)) efs) ts)),
          entity_field_masks =
            dict_of (concat (map (\<lambda>(n, em, ei, efs). map (\<lambda>(k, efm, efi). (k, efm)) efs) ts))\<rparr>"
    by (auto simp: compute_indexing_def ebind_Inr Let_def)
  let ?fmasks = "dict_of (map (\<lambda>(n, m, i). (n, m)) fs)"
  let ?n = "et_name t"
  let ?em = "entity_mask es ?n"
  \<comment> \<open>the entry of the entity type\<close>
  from mapM_mem[OF ts t] obtain n em ei efs where
    ent: "(n, em, ei, efs) \<in> set ts" "index_entity_type es ?fmasks t = Inr (n, em, ei, efs)"
    by (metis prod_cases4)
  from index_entity_type_Inr[OF ent(2)] have
    n: "n = ?n" and em: "em = ?em" and ei: "masked_select ?idx ?em = Inr ei"
    and efs: "mapM (index_entity_field es ?fmasks ?n ?em) (et_data_fields t) = Inr efs"
    by auto
  from mapM_mem[OF efs f] obtain k efm efi where
    ef: "(k, efm, efi) \<in> set efs" "index_entity_field es ?fmasks ?n ?em f = Inr (k, efm, efi)"
    by (metis prod_cases3)
  from index_entity_field_Inr[OF ef(2)] obtain fm where
    k: "k = (?n, f)" and fm: "?fmasks f = Some fm" and efm: "mask_and ?em fm = Inr efm"
    and efi: "masked_select ?idx efm = Inr efi"
    by auto
  \<comment> \<open>what the three dicts hold at these keys\<close>
  have "(?n, ei) \<in> set (map (\<lambda>(n, em, ei, efs). (n, ei)) ts)"
    using ent(1) n by force
  from dict_of_key[OF this] obtain ei' where ei': "entity_indices ix ?n = Some ei'"
    by (auto simp: ix)
  have "ei' = ei"
  proof -
    from dict_of_SomeD[OF ei'[unfolded ix, simplified]]
    obtain em2 efs2 where "(?n, em2, ei', efs2) \<in> set ts" by auto
    from mapM_mem_rev[OF ts this] obtain t2 where
      "index_entity_type es ?fmasks t2 = Inr (?n, em2, ei', efs2)" by auto
    from index_entity_type_Inr[OF this] have "masked_select ?idx ?em = Inr ei'" by auto
    with ei show ?thesis by simp
  qed
  from dict_of_SomeD[OF fm] obtain fi0 where "(f, fm, fi0) \<in> set fs" by auto
  then have "(f, fi0) \<in> set (map (\<lambda>(n, m, i). (n, i)) fs)" by force
  from dict_of_key[OF this] obtain fi where fi: "field_indices ix f = Some fi"
    by (auto simp: ix)
  have "(f, fm, fi) \<in> set fs"
    using dict_of_triples[OF fm] fi by (simp add: ix)
  from mapM_mem_rev[OF fs this] obtain fo where "index_field es fo = Inr (f, fm, fi)" by auto
  from index_field_Inr[OF this] have fi_sel: "masked_select ?idx fm = Inr fi" by simp
  have "((?n, f), efi) \<in> set (concat (map (\<lambda>(n, em, ei, efs). map (\<lambda>(k, efm, efi). (k, efi)) efs) ts))"
    using ent(1) ef(1) k by force
  from dict_of_key[OF this] obtain efi' where efi': "entity_field_indices ix (?n, f) = Some efi'"
    by (auto simp: ix)
  have "masked_select ?idx efm = Inr efi'"
  proof -
    from dict_of_SomeD[OF efi'[unfolded ix, simplified]]
    obtain n2 em2 ei2 efs2 efm2 where
      e2: "(n2, em2, ei2, efs2) \<in> set ts" "((?n, f), efm2, efi') \<in> set efs2"
      by auto
    from mapM_mem_rev[OF ts e2(1)] obtain t2 where
      "index_entity_type es ?fmasks t2 = Inr (n2, em2, ei2, efs2)" by auto
    from index_entity_type_Inr[OF this] have
      t2: "em2 = entity_mask es n2"
        "mapM (index_entity_field es ?fmasks n2 em2) (et_data_fields t2) = Inr efs2"
      by auto
    from mapM_mem_rev[OF t2(2) e2(2)] obtain f2 where
      "index_entity_field es ?fmasks n2 em2 f2 = Inr ((?n, f), efm2, efi')" by auto
    from index_entity_field_Inr[OF this] obtain fm2 where
      "(?n, f) = (n2, f2)" "?fmasks f2 = Some fm2" "mask_and em2 fm2 = Inr efm2"
      "masked_select ?idx efm2 = Inr efi'"
      by auto
    with t2(1) fm efm show ?thesis by simp
  qed
  with efi have "efi' = efi" by simp
  have "set efi = set ei \<inter> set fi"
    using masked_select_and[OF ei fi_sel efm efi] by (simp add: index_space_def)
  with ei' \<open>ei' = ei\<close> fi efi' \<open>efi' = efi\<close> show ?thesis by simp
qed

text \<open>The instance: the persons are the rows 0 and 1, and both have a name.\<close>

theorem entity_field_indices_intersection_witness:
  "ex_Person \<in> set (entity_types ex_schema) \<and> ''name'' \<in> set (et_data_fields ex_Person)
   \<and> (case compute_indexing ex_schema ex_batch of
         Inl e \<Rightarrow> False
       | Inr ix \<Rightarrow>
           entity_indices ix ''Person'' = Some [0, 1]
           \<and> field_indices ix ''name'' = Some [0, 1]
           \<and> entity_field_indices ix (''Person'', ''name'') = Some [0, 1]
           \<and> entity_indices ix ''Doc'' = Some [2]
           \<and> (\<exists>ei fi efi. entity_indices ix (et_name ex_Person) = Some ei
                 \<and> field_indices ix ''name'' = Some fi
                 \<and> entity_field_indices ix (et_name ex_Person, ''name'') = Some efi
                 \<and> set efi = set ei \<inter> set fi))"
proof -
  obtain ix where ix: "compute_indexing ex_schema ex_batch = Inr ix"
    and v: "entity_indices ix ''Person'' = Some [0, 1]" "field_indices ix ''name'' = Some [0, 1]"
      "entity_field_indices ix (''Person'', ''name'') = Some [0, 1]"
      "entity_indices ix ''Doc'' = Some [2]"
    by (simp add: forward_defs tensor_defs ex_defs Let_def)
  have t: "ex_Person \<in> set (entity_types ex_schema)" by (simp add: ex_schema_def)
  have f: "''name'' \<in> set (et_data_fields ex_Person)" by (simp add: ex_Person_def)
  from entity_field_indices_intersection[OF ix t f] v t f show ?thesis
    by (simp add: ix)
qed

section \<open>The field encodings\<close>

lemma fl_add_NaN [simp]: "fl_add x NaN = NaN" "fl_add NaN x = NaN"
  by (cases x; simp)+

lemma foldl_fl_add_NaN: "foldl fl_add NaN r = NaN"
  by (induction r) simp_all

lemma row_sum_NaN: "NaN \<in> set r \<Longrightarrow> row_sum r = NaN"
proof -
  assume "NaN \<in> set r"
  then obtain ys zs where "r = ys @ NaN # zs" by (meson split_list)
  then show ?thesis by (simp add: row_sum_def foldl_fl_add_NaN)
qed

lemma fold_update_length:
  "length (fold (\<lambda>(i, r) rs. rs[i := r]) ps rs) = length rs"
  by (induction ps arbitrary: rs) (auto split: prod.splits)

lemma fold_update_other:
  "i \<notin> fst ` set ps \<Longrightarrow> fold (\<lambda>(i, r) rs. rs[i := r]) ps rs ! i = rs ! i"
  by (induction ps arbitrary: rs) (auto split: prod.splits)

lemma index_put_Inr:
  assumes "index_put t idx src = Inr t'"
  shows "ncols t' = ncols t" "length (rows t') = length (rows t)"
    "i \<notin> set idx \<Longrightarrow> rows t' ! i = rows t ! i"
proof -
  from assms have t': "t' = t\<lparr>rows := fold (\<lambda>(i, r) rs. rs[i := r]) (zip idx (rows src)) (rows t)\<rparr>"
    by (auto simp: index_put_def split: if_splits)
  show "ncols t' = ncols t" by (simp add: t')
  show "length (rows t') = length (rows t)" by (simp add: t' fold_update_length)
  show "rows t' ! i = rows t ! i" if "i \<notin> set idx"
  proof -
    have "i \<notin> fst ` set (zip idx (rows src))" using that by (auto dest: set_zip_leftD)
    then show ?thesis by (simp add: t' fold_update_other)
  qed
qed

lemma masked_select_upt:
  "masked_select [0..<n] msk = Inr idx \<Longrightarrow> i \<in> set idx \<longleftrightarrow> i < n \<and> msk ! i"
  by (auto simp: masked_select_mem)

lemma masked_select_none:
  "length msk = length xs \<Longrightarrow> list_all (\<lambda>b. \<not> b) msk \<Longrightarrow> masked_select xs msk = Inr []"
proof -
  assume l: "length msk = length xs" and a: "list_all (\<lambda>b. \<not> b) msk"
  have "filter snd (zip xs msk) = []"
    using a by (auto simp: filter_empty_conv list_all_iff dest: set_zip_rightD)
  with l show ?thesis by (simp add: masked_select_def)
qed

text \<open>
  C5. Let the mask and the indices of a field be those of lines 139-148, and let the model
  have an encoder for it. Whenever the encoding step of the field (lines 160-166) returns,
  its tensor has a row for each entity and the width of the encoder, and every row whose
  mask is false is exactly zero. When the field is not sequential and each of its rows
  holds a NaN (a numeric field whose values are all missing), the mask is false everywhere,
  the step returns the zero tensor and the encoder is not called.
\<close>

theorem absent_rows_zero:
  assumes "index_field es f = Inr (n, msk, indices)"
    and "field_indices ix n = Some indices"
    and "field_encoders m n = Some enc"
  shows "(\<forall>t calls. encode_field m es ix f = Inr (t, calls) \<longrightarrow>
            ncols t = output_size enc \<and> length (rows t) = num_entities es
            \<and> (\<forall>i<num_entities es. i < length msk \<and> \<not> msk ! i \<longrightarrow>
                  rows t ! i = replicate (output_size enc) (Fin 0)))
       \<and> (field_type_name f \<notin> set [''sequential'', ''text'']
            \<and> (\<exists>c. cols es n = Some c \<and> list_all (\<lambda>r. NaN \<in> set r) (rows c)) \<longrightarrow>
            msk = replicate (length (types es)) False
            \<and> encode_field m es ix f = Inr (zeros (num_entities es) (output_size enc), []))"
proof (intro conjI allI impI)
  from index_field_Inr[OF assms(1)] have n: "n = field_name f"
    and fm: "field_mask es f = Inr msk" and sel: "masked_select (index_space es) msk = Inr indices"
    by auto
  let ?z = "zeros (num_entities es) (output_size enc)"
  {
    fix t calls
    assume e: "encode_field m es ix f = Inr (t, calls)"
    have shape: "ncols t = output_size enc \<and> length (rows t) = num_entities es
        \<and> (\<forall>i. i \<notin> set indices \<longrightarrow> rows t ! i = rows ?z ! i)"
    proof (cases "indices = []")
      case True
      with e assms(2,3) n show ?thesis
        by (auto simp: encode_field_def getitem_def zeros_def Let_def)
    next
      case False
      with e assms(2,3) n obtain src where "index_put ?z indices src = Inr t"
        by (auto simp: encode_field_def getitem_def Let_def ebind_Inr split: option.splits)
      from index_put_Inr[OF this] show ?thesis by (simp add: zeros_def)
    qed
    then show "ncols t = output_size enc" "length (rows t) = num_entities es" by simp_all
    fix i
    assume i: "i < num_entities es" "i < length msk \<and> \<not> msk ! i"
    then have "i \<notin> set indices"
      using masked_select_upt[OF sel[unfolded index_space_def]] by simp
    with shape i(1) show "rows t ! i = replicate (output_size enc) (Fin 0)"
      by (simp add: zeros_def)
  }
  assume a: "field_type_name f \<notin> set [''sequential'', ''text'']
     \<and> (\<exists>c. cols es n = Some c \<and> list_all (\<lambda>r. NaN \<in> set r) (rows c))"
  then obtain c where c: "cols es n = Some c" "list_all (\<lambda>r. NaN \<in> set r) (rows c)" by blast
  from fm a c n have msk: "msk = map (\<lambda>r. \<not> isnan (row_sum r)) (rows c)"
    by (auto simp: field_mask_def getitem_def split: if_splits)
  have allF: "list_all (\<lambda>b. \<not> b) msk"
    using c(2) by (auto simp: msk list_all_iff row_sum_NaN)
  have len: "length msk = length (types es)"
    using masked_select_length[OF sel] by (simp add: index_space_def)
  show "msk = replicate (length (types es)) False"
    using allF len by (auto simp: list_all_iff intro!: replicate_eqI)
  have "indices = []"
    using masked_select_none[OF _ allF, of "index_space es"] len sel
    by (simp add: index_space_def)
  with assms(2,3) n show "encode_field m es ix f = Inr (?z, [])"
    by (simp add: encode_field_def getitem_def Let_def)
qed

text \<open>
  The instance: the document has no name, so its row of the encoding of \<open>name\<close> is zero;
  in the batch without any name the encoder is not called.
\<close>

theorem absent_rows_zero_witness:
  "index_field ex_batch ex_name = Inr (''name'', [True, True, False], [0, 1])
   \<and> encode_field (ex_model 2 [3, 1] False 8) ex_batch (ex_indexing ex_batch) ex_name
       = Inr (\<lparr>ncols = 2, rows = [[Fin 1, Fin 1], [Fin 2, Fin 2], [Fin 0, Fin 0]]\<rparr>,
              [\<lparr>ncols = 1, rows = [[Fin 1], [Fin 2]]\<rparr>])
   \<and> index_field ex_missing_batch ex_name = Inr (''name'', [False, False, False], [])
   \<and> encode_field (ex_model 2 [3, 1] False 8) ex_missing_batch (ex_indexing ex_missing_batch) ex_name
       = Inr (zeros 3 2, [])"
proof -
  let ?m = "ex_model 2 [3, 1] False 8"
  have enc: "field_encoders ?m ''name'' = Some \<lparr>output_size = 2, encode = ex_rows 2 (\<lambda>x. x)\<rparr>"
    by (simp add: ex_model_def init_defs ex_defs forward_defs tensor_defs Let_def)
  have f1: "index_field ex_batch ex_name = Inr (''name'', [True, True, False], [0, 1])"
    by (simp add: forward_defs tensor_defs ex_defs)
  have i1: "field_indices (ex_indexing ex_batch) ''name'' = Some [0, 1]"
    by (simp add: ex_indexing_def forward_defs tensor_defs ex_defs Let_def)
  have e1: "encode_field ?m ex_batch (ex_indexing ex_batch) ex_name
       = Inr (\<lparr>ncols = 2, rows = [[Fin 1, Fin 1], [Fin 2, Fin 2], [Fin 0, Fin 0]]\<rparr>,
              [\<lparr>ncols = 1, rows = [[Fin 1], [Fin 2]]\<rparr>])"
    by (simp add: ex_indexing_def ex_model_def init_defs forward_defs tensor_defs ex_defs Let_def
          eval_nat_numeral)
  have f2: "index_field ex_missing_batch ex_name = Inr (''name'', [False, False, False], [])"
    by (simp add: ex_missing_batch_def forward_defs tensor_defs ex_defs)
  have i2: "field_indices (ex_indexing ex_missing_batch) ''name'' = Some []"
    by (simp add: ex_indexing_def ex_missing_batch_def forward_defs tensor_defs ex_defs Let_def)
  have a2: "field_type_name ex_name \<notin> set [''sequential'', ''text'']
      \<and> (\<exists>c. cols ex_missing_batch ''name'' = Some c \<and> list_all (\<lambda>r. NaN \<in> set r) (rows c))"
    by (simp add: ex_missing_batch_def forward_defs ex_defs)
  from absent_rows_zero[OF f1 i1 enc] e1
  have "rows (fst (projr (encode_field ?m ex_batch (ex_indexing ex_batch) ex_name))) ! 2
          = replicate 2 (Fin 0)"
    by (simp add: num_entities_def ex_batch_def eval_nat_numeral)
  moreover from absent_rows_zero[OF f2 i2 enc] a2
  have "encode_field ?m ex_missing_batch (ex_indexing ex_missing_batch) ex_name
          = Inr (zeros (num_entities ex_missing_batch) 2, [])"
    by simp
  ultimately show ?thesis using f1 e1 f2
    by (simp add: num_entities_def ex_missing_batch_def ex_batch_def eval_nat_numeral)
qed

section \<open>Loops that leave the state as it is\<close>

lemma foldM_id: "(\<And>x. x \<in> set xs \<Longrightarrow> f x s = Inr s) \<Longrightarrow> foldM f xs s = Inr s"
  by (induction xs) simp_all

lemma masked_select_all_false:
  "masked_select xs (replicate (length xs) False) = Inr []"
  by (rule masked_select_none) (simp_all add: list_all_iff)


lemma relation_reps_step:
  "relation_reps es adjacencies b prev summarize rel ei
     = foldM (relation_step es adjacencies prev summarize rel) (enumerate 0 ei) (zeros (length ei) b)"
  by (simp add: relation_reps_def relation_step_def)

lemma zip_upt_filter:
  "length msk = n \<Longrightarrow>
   map fst (filter snd (zip [k..<k + n] msk)) = filter (\<lambda>j. msk ! (j - k)) [k..<k + n]"
proof (induction msk arbitrary: k n)
  case Nil
  then show ?case by simp
next
  case (Cons a msk)
  then obtain n' where n: "n = Suc n'" "length msk = n'" by (cases n) auto
  let ?tl = "[Suc k..<Suc k + n']"
  have upt: "[k..<k + n] = k # ?tl" by (simp add: n upt_conv_Cons)
  have nth: "(a # msk) ! (j - k) = msk ! (j - Suc k)" if "Suc k \<le> j" for j
  proof -
    from that have "j - k = Suc (j - Suc k)" by arith
    then show ?thesis by simp
  qed
  have "filter (\<lambda>j. (a # msk) ! (j - k)) ?tl = filter (\<lambda>j. msk ! (j - Suc k)) ?tl"
    by (rule filter_cong[OF refl]) (simp add: nth del: upt_Suc)
  also have "\<dots> = map fst (filter snd (zip ?tl msk))"
    using Cons.IH[OF n(2), of "Suc k"] by simp
  finally have tl: "filter (\<lambda>j. (a # msk) ! (j - k)) ?tl = map fst (filter snd (zip ?tl msk))" .
  have "map fst (filter snd (zip [k..<k + n] (a # msk)))
      = (if a then [k] else []) @ map fst (filter snd (zip ?tl msk))"
    unfolding upt by simp
  also have "\<dots> = filter (\<lambda>j. (a # msk) ! (j - k)) [k..<k + n]"
    unfolding upt filter.simps tl[symmetric] by simp
  finally show ?case .
qed

lemma masked_select_upt_filter:
  "masked_select [0..<n] msk = Inr idx \<Longrightarrow> idx = filter (\<lambda>j. msk ! j) [0..<n]"
  using zip_upt_filter[of msk n 0] by (auto simp: masked_select_def split: if_splits)

lemma related_indices_Inr:
  "related_indices es M index = Inr related \<Longrightarrow>
   related = filter (\<lambda>j. M ! index ! j) (index_space es)"
  by (auto simp: related_indices_def index_space_def split: if_splits
      dest: masked_select_upt_filter)

lemma index_select_rows:
  "index_select t idx = Inr u \<Longrightarrow> rows u = map (\<lambda>j. rows t ! j) idx \<and> ncols u = ncols t"
  by (auto simp: index_select_def split: if_splits)

lemma row_put_Inr:
  "row_put t i r = Inr t' \<Longrightarrow>
   ncols t' = ncols t \<and> i < length (rows t) \<and> rows t' = (rows t)[i := r]"
  by (auto simp: row_put_def split: if_splits)

lemma relation_step_Some:
  assumes "relation_step es adjacencies prev summarize rel (i, index) reps = Inr reps'"
    and "adjacencies rel = Some M"
  shows "ncols reps' = ncols reps \<and> length (rows reps') = length (rows reps)
     \<and> (\<forall>j. j \<noteq> i \<longrightarrow> rows reps' ! j = rows reps ! j)
     \<and> (i < length (rows reps) \<longrightarrow>
          rows reps' ! i =
           (let related = filter (\<lambda>j. M ! index ! j) (index_space es) in
            if related = [] then rows reps ! i
            else summarize (map (\<lambda>j. rows prev ! j) related)))"
proof -
  from assms obtain related where
    rel: "related_indices es M index = Inr related"
    and step: "(if length related > 0
                then ebind (index_select prev related) (\<lambda>obns. row_put reps i (summarize (rows obns)))
                else Inr reps) = Inr reps'"
    by (auto simp: relation_step_def ebind_Inr)
  note r = related_indices_Inr[OF rel]
  show ?thesis
  proof (cases "related = []")
    case True
    with step r show ?thesis by (simp add: Let_def)
  next
    case False
    with step obtain obns where o: "index_select prev related = Inr obns"
      and p: "row_put reps i (summarize (rows obns)) = Inr reps'"
      by (auto simp: ebind_Inr)
    from index_select_rows[OF o] row_put_Inr[OF p] False r show ?thesis
      by (simp add: Let_def)
  qed
qed

lemma relation_loop:
  assumes "foldM (relation_step es adjacencies prev summarize rel) (enumerate k xs) reps = Inr reps'"
    and "adjacencies rel = Some M"
    and "k + length xs \<le> length (rows reps)"
  shows "ncols reps' = ncols reps \<and> length (rows reps') = length (rows reps)
     \<and> (\<forall>i<length (rows reps). rows reps' ! i =
          (if k \<le> i \<and> i < k + length xs
           then (let related = filter (\<lambda>j. M ! (xs ! (i - k)) ! j) (index_space es) in
                 if related = [] then rows reps ! i
                 else summarize (map (\<lambda>j. rows prev ! j) related))
           else rows reps ! i))"
  using assms
proof (induction xs arbitrary: k reps)
  case Nil
  then show ?case by auto
next
  case (Cons x xs)
  from Cons.prems(1) obtain reps1 where
    s1: "relation_step es adjacencies prev summarize rel (k, x) reps = Inr reps1"
    and rest: "foldM (relation_step es adjacencies prev summarize rel) (enumerate (Suc k) xs) reps1 = Inr reps'"
    by (auto simp: ebind_Inr)
  note a = relation_step_Some[OF s1 Cons.prems(2)]
  from a Cons.prems(3) have len1: "Suc k + length xs \<le> length (rows reps1)" by simp
  note b = Cons.IH[OF rest Cons.prems(2) len1]
  have k: "k < length (rows reps)" using Cons.prems(3) by simp
  show ?case
  proof (intro conjI allI impI)
    show "ncols reps' = ncols reps" using a b by simp
    show "length (rows reps') = length (rows reps)" using a b by simp
    fix i
    assume i: "i < length (rows reps)"
    consider "i < k" | "i = k" | "k < i"
      by linarith
    then show "rows reps' ! i =
          (if k \<le> i \<and> i < k + length (x # xs)
           then (let related = filter (\<lambda>j. M ! ((x # xs) ! (i - k)) ! j) (index_space es) in
                 if related = [] then rows reps ! i
                 else summarize (map (\<lambda>j. rows prev ! j) related))
           else rows reps ! i)"
    proof cases
      case 1
      with a b i show ?thesis by simp
    next
      case 2
      from a b k show ?thesis unfolding 2 by simp
    next
      case 3
      then have "i - k = Suc (i - Suc k)" by arith
      then have "(x # xs) ! (i - k) = xs ! (i - Suc k)" by simp
      with 3 a b i show ?thesis by (simp add: Let_def)
    qed
  qed
qed

lemma foldM_None:
  "adjacencies rel = None \<Longrightarrow>
   foldM (relation_step es adjacencies prev summarize rel) xs reps = Inr reps"
  by (rule foldM_id) (auto simp: relation_step_def)

lemma relation_reps_rows:
  assumes "relation_reps es adjacencies b prev summarize rel ei = Inr block"
  shows "ncols block = b \<and> length (rows block) = length ei
     \<and> (\<forall>i<length ei. rows block ! i = summary_row es adjacencies b prev summarize rel (ei ! i))"
proof (cases "adjacencies rel")
  case None
  with assms foldM_None[of adjacencies rel es prev summarize "enumerate 0 ei" "zeros (length ei) b"]
  show ?thesis by (auto simp: relation_reps_step summary_row_def zeros_def)
next
  case (Some M)
  from assms have "foldM (relation_step es adjacencies prev summarize rel) (enumerate 0 ei)
      (zeros (length ei) b) = Inr block"
    by (simp add: relation_reps_step)
  from relation_loop[OF this Some] show ?thesis
    by (auto simp: zeros_def summary_row_def Some Let_def)
qed

lemma mapM_nth:
  "mapM f xs = Inr ys \<Longrightarrow> length ys = length xs \<and> (\<forall>k<length xs. f (xs ! k) = Inr (ys ! k))"
  by (drule mapM_Inr) (simp add: list_all2_conv_all_nth)

lemma summary_row_cases:
  "\<exists>related. summary_row es adjacencies b prev s rel index
      = (if related = [] then replicate b (Fin 0) else s (map (\<lambda>j. rows prev ! j) related))"
proof (cases "adjacencies rel")
  case None
  then show ?thesis by (intro exI[of _ "[]"]) (simp add: summary_row_def)
next
  case (Some M)
  then show ?thesis
    by (intro exI[of _ "filter (\<lambda>j. M ! index ! j) (index_space es)"])
       (simp add: summary_row_def Let_def)
qed

text \<open>
  C2, as amended. Whenever the blocks of an entity type are computed (lines 202-225), there
  is one block for each outgoing relation of the type, followed, under
  \<^verbatim>\<open>reverse_relations\<close>, by one block for each incoming relation. The row of entity \<open>i\<close>
  in the block of an outgoing relation is zero when the relation has no matrix or row \<open>i\<close>
  of its matrix has no true entry, and otherwise the relation's target-side summarizer
  (\<^verbatim>\<open>relation_target_summarizers\<close>) applied to the rows of the snapshot at the true
  entries of row \<open>i\<close>. Each row of the block of an incoming relation is zero or the
  relation's source-side summarizer (\<^verbatim>\<open>relation_source_summarizers\<close>) applied to rows of
  the snapshot.
\<close>

theorem other_reps_blocks:
  assumes "other_reps m es adjacencies b prev t ei = Inr blocks"
  shows "length blocks = length (et_relation_fields t)
            + (if reverse_relations m then length (et_reverse_relation_fields t) else 0)
     \<and> (\<forall>k<length (et_relation_fields t).
          \<exists>s. relation_target_summarizers m (et_relation_fields t ! k) = Some s
            \<and> ncols (blocks ! k) = b \<and> length (rows (blocks ! k)) = length ei
            \<and> (\<forall>i<length ei. rows (blocks ! k) ! i
                  = summary_row es adjacencies b prev s (et_relation_fields t ! k) (ei ! i)))
     \<and> (reverse_relations m \<longrightarrow>
          (\<forall>k<length (et_reverse_relation_fields t).
            \<exists>s. relation_source_summarizers m (et_reverse_relation_fields t ! k) = Some s
              \<and> ncols (blocks ! (length (et_relation_fields t) + k)) = b
              \<and> length (rows (blocks ! (length (et_relation_fields t) + k))) = length ei
              \<and> (\<forall>i<length ei. \<exists>related.
                    rows (blocks ! (length (et_relation_fields t) + k)) ! i
                      = (if related = [] then replicate b (Fin 0)
                         else s (map (\<lambda>j. rows prev ! j) related)))))"
proof -
  let ?out = "\<lambda>rel_name. ebind (getitem (relation_target_summarizers m) rel_name)
                 (\<lambda>summarize. relation_reps es adjacencies b prev summarize rel_name ei)"
  let ?inc = "\<lambda>rel_name. ebind (getitem (relation_source_summarizers m) rel_name)
                 (\<lambda>summarize. relation_reps es adjacencies b prev summarize rel_name ei)"
  from assms obtain outgoing where
    out: "mapM ?out (et_relation_fields t) = Inr outgoing"
    and rest: "(if reverse_relations m
                then ebind (mapM ?inc (et_reverse_relation_fields t)) (\<lambda>incoming. Inr (outgoing @ incoming))
                else Inr outgoing) = Inr blocks"
    by (auto simp: other_reps_def ebind_Inr)
  note o = mapM_nth[OF out]
  have outk: "\<exists>s. relation_target_summarizers m (et_relation_fields t ! k) = Some s
            \<and> ncols (outgoing ! k) = b \<and> length (rows (outgoing ! k)) = length ei
            \<and> (\<forall>i<length ei. rows (outgoing ! k) ! i
                  = summary_row es adjacencies b prev s (et_relation_fields t ! k) (ei ! i))"
    if k: "k < length (et_relation_fields t)" for k
  proof -
    from o k have "?out (et_relation_fields t ! k) = Inr (outgoing ! k)" by simp
    then obtain s where s: "relation_target_summarizers m (et_relation_fields t ! k) = Some s"
      and r: "relation_reps es adjacencies b prev s (et_relation_fields t ! k) ei = Inr (outgoing ! k)"
      by (auto simp: ebind_Inr getitem_Inr)
    from relation_reps_rows[OF r] s show ?thesis by simp
  qed
  show ?thesis
  proof (cases "reverse_relations m")
    case False
    with rest have "blocks = outgoing" by simp
    with False o outk show ?thesis by simp
  next
    case True
    with rest obtain incoming where
      inc: "mapM ?inc (et_reverse_relation_fields t) = Inr incoming"
      and bl: "blocks = outgoing @ incoming"
      by (auto simp: ebind_Inr)
    note i = mapM_nth[OF inc]
    have inck: "\<exists>s. relation_source_summarizers m (et_reverse_relation_fields t ! k) = Some s
              \<and> ncols (incoming ! k) = b \<and> length (rows (incoming ! k)) = length ei
              \<and> (\<forall>i<length ei. \<exists>related. rows (incoming ! k) ! i
                      = (if related = [] then replicate b (Fin 0)
                         else s (map (\<lambda>j. rows prev ! j) related)))"
      if k: "k < length (et_reverse_relation_fields t)" for k
    proof -
      from i k have "?inc (et_reverse_relation_fields t ! k) = Inr (incoming ! k)" by simp
      then obtain s where s: "relation_source_summarizers m (et_reverse_relation_fields t ! k) = Some s"
        and r: "relation_reps es adjacencies b prev s (et_reverse_relation_fields t ! k) ei = Inr (incoming ! k)"
        by (auto simp: ebind_Inr getitem_Inr)
      from relation_reps_rows[OF r] s summary_row_cases show ?thesis by simp
    qed
    from True o i outk inck show ?thesis
      by (simp add: bl nth_append)
  qed
qed

text \<open>
  The instance, with reverse relations: the blocks of \<open>Person\<close> and of \<open>Doc\<close> as
  \<^verbatim>\<open>forward\<close> computes them and as the specification words them. The first person is
  an author of the document, whose bottleneck is 4; the bottleneck of that person is 3.
\<close>

lemma ex_other_reps_Person:
  "other_reps (ex_model_summarizers True) ex_batch ex_adjacency 1 ex_bottlenecks ex_Person [0, 1]
     = Inr [\<lparr>ncols = 1, rows = [[Fin 14], [Fin 0]]\<rparr>]"
  by (simp add: ex_eval)

lemma ex_spec_other_reps_Person:
  "spec_other_reps (ex_model_summarizers True) ex_batch ex_adjacency 1 ex_bottlenecks ex_Person [0, 1]
     = Inr [\<lparr>ncols = 1, rows = [[Fin 4], [Fin 0]]\<rparr>]"
  by (simp add: spec_other_reps_def rev_adjacencies_def ex_eval)

lemma ex_other_reps_Doc:
  "other_reps (ex_model_summarizers True) ex_batch ex_adjacency 1 ex_bottlenecks ex_Doc [2]
     = Inr [\<lparr>ncols = 1, rows = [[Fin 0]]\<rparr>]"
  by (simp add: ex_eval)

lemma ex_spec_other_reps_Doc:
  "spec_other_reps (ex_model_summarizers True) ex_batch ex_adjacency 1 ex_bottlenecks ex_Doc [2]
     = Inr [\<lparr>ncols = 1, rows = [[Fin 13]]\<rparr>]"
  by (simp add: spec_other_reps_def rev_adjacencies_def ex_eval)

text \<open>
  C2 as the specification states it fails: for the outgoing relation of \<open>Person\<close> the code
  applies the target-side summarizer (the summary of the first person is 4 + 10), not the
  source-side one (which would give 4).
\<close>

theorem other_reps_not_as_worded:
  "other_reps (ex_model_summarizers True) ex_batch ex_adjacency 1 ex_bottlenecks ex_Person [0, 1]
     = Inr [\<lparr>ncols = 1, rows = [[Fin 14], [Fin 0]]\<rparr>]
   \<and> spec_other_reps (ex_model_summarizers True) ex_batch ex_adjacency 1 ex_bottlenecks ex_Person [0, 1]
     = Inr [\<lparr>ncols = 1, rows = [[Fin 4], [Fin 0]]\<rparr>]
   \<and> other_reps (ex_model_summarizers True) ex_batch ex_adjacency 1 ex_bottlenecks ex_Person [0, 1]
     \<noteq> spec_other_reps (ex_model_summarizers True) ex_batch ex_adjacency 1 ex_bottlenecks ex_Person [0, 1]"
  unfolding ex_other_reps_Person ex_spec_other_reps_Person by simp

text \<open>The amended statement at the instance, for \<open>Person\<close> and for \<open>Doc\<close>.\<close>

theorem other_reps_blocks_witness:
  "other_reps (ex_model_summarizers True) ex_batch ex_adjacency 1 ex_bottlenecks ex_Person [0, 1]
     = Inr [\<lparr>ncols = 1, rows = [[Fin 14], [Fin 0]]\<rparr>]
   \<and> relation_target_summarizers (ex_model_summarizers True) ''authored'' = Some (ex_summarizer (Fin 10))
   \<and> summary_row ex_batch ex_adjacency 1 ex_bottlenecks (ex_summarizer (Fin 10)) ''authored'' 0 = [Fin 14]
   \<and> summary_row ex_batch ex_adjacency 1 ex_bottlenecks (ex_summarizer (Fin 10)) ''authored'' 1 = [Fin 0]
   \<and> reverse_relations (ex_model_summarizers True)
   \<and> other_reps (ex_model_summarizers True) ex_batch ex_adjacency 1 ex_bottlenecks ex_Doc [2]
     = Inr [\<lparr>ncols = 1, rows = [[Fin 0]]\<rparr>]
   \<and> relation_source_summarizers (ex_model_summarizers True) ''authored'' = Some (ex_summarizer (Fin 0))"
proof -
  let ?m = "ex_model_summarizers True"
  have t: "relation_target_summarizers ?m ''authored'' = Some (ex_summarizer (Fin 10))"
    and s: "relation_source_summarizers ?m ''authored'' = Some (ex_summarizer (Fin 0))"
    by (simp_all add: ex_model_summarizers_def)
  have r: "reverse_relations ?m" by (simp add: ex_eval)
  from other_reps_blocks[OF ex_other_reps_Person] t
  have "[Fin 14] = summary_row ex_batch ex_adjacency 1 ex_bottlenecks (ex_summarizer (Fin 10)) ''authored'' 0
      \<and> [Fin 0] = summary_row ex_batch ex_adjacency 1 ex_bottlenecks (ex_summarizer (Fin 10)) ''authored'' 1"
    by (simp add: ex_Person_def All_less_Suc)
  moreover from other_reps_blocks[OF ex_other_reps_Doc] r s
  have "\<exists>related. [Fin 0] = (if related = [] then replicate 1 (Fin 0)
                       else ex_summarizer (Fin 0) (map (\<lambda>j. rows ex_bottlenecks ! j) related))"
    by (simp add: ex_Doc_def All_less_Suc)
  ultimately show ?thesis using t s r ex_other_reps_Person ex_other_reps_Doc by simp
qed

section \<open>Depth 0\<close>

text \<open>
  C3. For a model of depth 0, every batch and every two adjacency inputs, \<^verbatim>\<open>forward\<close>
  returns the same result (the same reconstructions, the same bottleneck tensor, or the
  same exception).
\<close>

theorem depth0_ignores_adjacency:
  "depth m = 0 \<Longrightarrow> forward m es adjacencies = forward m es adjacencies'"
  by (simp add: forward_def depth_loop_def)

text \<open>
  The instance. At depth 0 the bottlenecks are those of the entities' own fields; at depth
  1 the adjacency matters.
\<close>

lemma ex_forward_depth0:
  "map_sum id (\<lambda>(r, b, p). b) (forward (ex_model 0 [3, 1] False 8) ex_batch ex_adjacency)
     = Inr ex_bottlenecks"
  by (simp add: ex_eval)

lemma ex_forward_depth1:
  "map_sum id (\<lambda>(r, b, p). b) (forward (ex_model 1 [3, 1] False 8) ex_batch ex_adjacency)
     = Inr \<lparr>ncols = 1, rows = [[Fin 17], [Fin 15], [Fin 13]]\<rparr>"
  "map_sum id (\<lambda>(r, b, p). b) (forward (ex_model 1 [3, 1] False 8) ex_batch Map.empty)
     = Inr \<lparr>ncols = 1, rows = [[Fin 13], [Fin 15], [Fin 13]]\<rparr>"
  by (simp_all add: ex_eval)

theorem depth0_ignores_adjacency_witness:
  "depth (ex_model 0 [3, 1] False 8) = 0
   \<and> forward (ex_model 0 [3, 1] False 8) ex_batch ex_adjacency
       = forward (ex_model 0 [3, 1] False 8) ex_batch Map.empty
   \<and> map_sum id (\<lambda>(r, b, p). b) (forward (ex_model 0 [3, 1] False 8) ex_batch Map.empty)
       = Inr ex_bottlenecks"
proof -
  have d: "depth (ex_model 0 [3, 1] False 8) = 0" by (simp add: ex_eval)
  from depth0_ignores_adjacency[OF d, of ex_batch ex_adjacency Map.empty] d ex_forward_depth0
  show ?thesis by simp
qed

section \<open>The snapshot of the bottlenecks\<close>

text \<open>With one depth after depth 0 the two loops agree: depth 1 reads the bottlenecks of depth 0.\<close>

lemma depth_loop_depth1:
  assumes "depth m = 1"
  shows "depth_loop m es adjacencies ix b s = spec_depth_loop m es adjacencies ix b s"
proof -
  have e: "foldM f [] = Inr" for f :: "nat \<Rightarrow> ae_state \<Rightarrow> error + ae_state"
    by (rule ext) simp
  from assms show ?thesis
    by (simp add: depth_loop_def spec_depth_loop_def Let_def e)
qed

lemma ex_state0_bottlenecks:
  "snd (ex_state0 (ex_model 2 [3, 1] False 8)) = ex_bottlenecks"
  by (simp add: ex_state0_def ex_eval)

text \<open>
  C1. The claim is that depth \<open>k\<close> reads the bottlenecks as they stood at the end of depth
  \<open>k - 1\<close>. In the instance with depth 2, the first person's summary at depth 2 is taken
  from the document's bottleneck of depth 0 (which is 4) and not from that of depth 1
  (which is 13): \<^verbatim>\<open>forward\<close> returns the bottleneck 27 for the person, where a snapshot
  taken at the end of depth 1 gives 36.
\<close>

theorem depth2_reads_depth0_snapshot:
  "map_sum id (\<lambda>(r, b, p). b) (forward (ex_model 2 [3, 1] False 8) ex_batch ex_adjacency)
     = Inr \<lparr>ncols = 1, rows = [[Fin 27], [Fin 25], [Fin 22]]\<rparr>
   \<and> map_sum id snd (depth_loop (ex_model 2 [3, 1] False 8) ex_batch ex_adjacency
        (ex_indexing ex_batch) 1 (ex_state0 (ex_model 2 [3, 1] False 8)))
     = Inr \<lparr>ncols = 1, rows = [[Fin 27], [Fin 25], [Fin 22]]\<rparr>
   \<and> map_sum id snd (spec_depth_loop (ex_model 2 [3, 1] False 8) ex_batch ex_adjacency
        (ex_indexing ex_batch) 1 (ex_state0 (ex_model 2 [3, 1] False 8)))
     = Inr \<lparr>ncols = 1, rows = [[Fin 36], [Fin 25], [Fin 22]]\<rparr>"
  by (simp add: ex_state0_def spec_depth_loop_def ex_eval)

section \<open>The width of the depth-0 inputs\<close>

lemma cat1_ncols: "cat1 ts = Inr x \<Longrightarrow> ncols x = sum_list (map ncols ts)"
  by (cases ts) (auto split: if_splits)

lemma autoencoder_input_blocks:
  assumes "mapM (\<lambda>fn. ebind (getitem fe fn) (\<lambda>e. index_select e ei)) fns = Inr blocks"
  shows "map ncols blocks = map (\<lambda>fn. ncols (the (fe fn))) fns"
  using assms
proof (induction fns arbitrary: blocks)
  case Nil
  then show ?case by simp
next
  case (Cons fn fns)
  then show ?case
    by (auto simp: ebind_Inr getitem_Inr dest: index_select_rows)
qed

text \<open>
  X2. Whenever the depth-0 input of an entity type is assembled (lines 174-178), its width
  is 8 plus the widths of the encodings of the type's fields, whatever
  \<^verbatim>\<open>base_entity_representation_size\<close> is.
\<close>

theorem autoencoder_input_width:
  assumes "autoencoder_input ix field_encodings t = Inr x"
  shows "ncols x = 8 + sum_list (map (\<lambda>fn. ncols (the (field_encodings fn))) (et_data_fields t))"
proof -
  from assms obtain ei blocks where
    b: "mapM (\<lambda>fn. ebind (getitem field_encodings fn) (\<lambda>fe. index_select fe ei)) (et_data_fields t) = Inr blocks"
    and c: "cat1 ([zeros (length ei) 8] @ blocks @ [zeros (length ei) 0]) = Inr x"
    by (auto simp: autoencoder_input_def ebind_Inr)
  from cat1_ncols[OF c] autoencoder_input_blocks[OF b] show ?thesis
    by (simp add: zeros_def)
qed

theorem autoencoder_input_width_witness:
  "map_sum id ncols
     (autoencoder_input (ex_indexing ex_batch) (ex_encodings (ex_model 0 [3, 1] False 8)) ex_Person)
     = Inr 10
   \<and> (10::nat) = 8 + sum_list (map (\<lambda>fn. ncols (the (ex_encodings (ex_model 0 [3, 1] False 8) fn)))
                         (et_data_fields ex_Person))"
proof -
  obtain x where e: "autoencoder_input (ex_indexing ex_batch)
        (ex_encodings (ex_model 0 [3, 1] False 8)) ex_Person = Inr x"
    and n: "ncols x = 10"
    by (simp add: ex_encodings_def ex_eval)
  from autoencoder_input_width[OF e] n e show ?thesis by simp
qed

text \<open>
  C4. The claim is that for every base width \<open>B\<close> the depth-0 input of an entity type
  starts with a zero block of width \<open>B\<close> and is as wide as the type's boundary size. With
  \<open>B = 4\<close>, the boundary size of \<open>Person\<close> is \<open>4 + 2 = 6\<close>, and the input that
  \<^verbatim>\<open>forward\<close> assembles for \<open>Person\<close> has \<open>8 + 2 = 10\<close> columns.
\<close>

theorem depth0_input_width_base4:
  "base_entity_representation_size (ex_model 0 [3, 1] False 4) = 4
   \<and> boundary_sizes (ex_model 0 [3, 1] False 4) ''Person'' = Some 6
   \<and> map_sum id ncols
        (autoencoder_input (ex_indexing ex_batch) (ex_encodings (ex_model 0 [3, 1] False 4)) ex_Person)
       = Inr 10"
  by (simp add: ex_encodings_def ex_eval)

section \<open>Construction with an empty shape sequence\<close>

lemma mapM_total:
  "(\<And>x. x \<in> set xs \<Longrightarrow> \<exists>y. f x = Inr y) \<Longrightarrow> \<exists>ys. mapM f xs = Inr ys"
proof (induction xs)
  case Nil
  then show ?case by simp
next
  case (Cons a xs)
  then obtain y ys where "f a = Inr y" "mapM f xs = Inr ys" by (meson list.set_intros)
  then show ?case by simp
qed

lemma mapM_raises:
  assumes "\<And>x. x \<in> set xs \<Longrightarrow> f x = Inl e \<or> (\<exists>y. f x = Inr y)"
    and "\<exists>x\<in>set xs. f x = Inl e"
  shows "mapM f xs = Inl e"
  using assms
proof (induction xs)
  case Nil
  then show ?case by simp
next
  case (Cons a xs)
  show ?case
  proof (cases "f a")
    case (Inl e')
    with Cons.prems(1)[of a] show ?thesis by simp
  next
    case (Inr y)
    with Cons.prems(2) have "\<exists>x\<in>set xs. f x = Inl e" by auto
    with Cons.IH Cons.prems(1) have "mapM f xs = Inl e" by simp
    with Inr show ?thesis by simp
  qed
qed

lemma foldM_total:
  "(\<And>x s. x \<in> set xs \<Longrightarrow> \<exists>s'. f x s = Inr s') \<Longrightarrow> \<exists>s'. foldM f xs s = Inr s'"
proof (induction xs arbitrary: s)
  case Nil
  then show ?case by simp
next
  case (Cons a xs)
  from Cons.prems[of a s] obtain s1 where "f a s = Inr s1" by auto
  moreover from Cons.IH[of s1] Cons.prems obtain s' where "foldM f xs s1 = Inr s'" by auto
  ultimately show ?case by simp
qed

lemma mapM_keys:
  "mapM f xs = Inr ys \<Longrightarrow> (\<And>x y. f x = Inr y \<Longrightarrow> fst y = g x) \<Longrightarrow> map fst ys = map g xs"
proof (induction xs arbitrary: ys)
  case Nil
  then show ?case by simp
next
  case (Cons a xs)
  then show ?case by (auto simp: ebind_Inr)
qed

lemma dict_of_dom: "k \<in> fst ` set kvs \<Longrightarrow> \<exists>v. dict_of kvs k = Some v"
  using dict_of_key by fastforce

lemma add_bottlenecks_None:
  "add_bottlenecks None rels sz = (if rels = [] then Inr sz else Inl TypeError)"
  by (cases rels) (simp_all add: add_bottlenecks_def)

lemma init_field_encoders_total:
  assumes "\<forall>f\<in>set (data_fields sc). field_model_classes fa f \<noteq> None"
  shows "\<exists>encs. init_field_encoders fa sc = Inr encs
           \<and> map fst encs = map field_name (data_fields sc)"
proof -
  let ?f = "\<lambda>f. case field_model_classes fa f of
                  None \<Rightarrow> Inl PyException
                | Some (enc, dec) \<Rightarrow> Inr (field_name f, enc)"
  have "\<exists>y. ?f x = Inr y" if "x \<in> set (data_fields sc)" for x
    using that assms by (auto split: option.splits)
  from mapM_total[of "data_fields sc" ?f, OF this] obtain encs where
    e: "mapM ?f (data_fields sc) = Inr encs" by auto
  have "map fst encs = map field_name (data_fields sc)"
    by (rule mapM_keys[OF e]) (auto split: option.splits)
  with e show ?thesis by (auto simp: init_field_encoders_def)
qed

lemma init_boundary_sizes_total:
  assumes "\<forall>t\<in>set ts. set (et_data_fields t) \<subseteq> fst ` set encs"
  shows "\<exists>sizes. mapM (init_boundary_size base (dict_of encs)) ts = Inr sizes
           \<and> map fst sizes = map et_name ts"
proof -
  have "\<exists>y. init_boundary_size base (dict_of encs) t = Inr y" if t: "t \<in> set ts" for t
  proof -
    have "\<exists>s'. ebind (getitem (dict_of encs) fn) (\<lambda>enc. Inr (s + output_size enc)) = Inr s'"
      if "fn \<in> set (et_data_fields t)" for fn and s :: nat
    proof -
      from that t assms have "fn \<in> fst ` set encs" by auto
      from dict_of_dom[OF this] show ?thesis by (auto simp: getitem_def)
    qed
    from foldM_total[of "et_data_fields t"
        "\<lambda>fn sz. ebind (getitem (dict_of encs) fn) (\<lambda>enc. Inr (sz + output_size enc))" base, OF this]
    show ?thesis by (auto simp: init_boundary_size_def)
  qed
  from mapM_total[of ts "init_boundary_size base (dict_of encs)", OF this] obtain sizes where
    s: "mapM (init_boundary_size base (dict_of encs)) ts = Inr sizes" by auto
  have "map fst sizes = map et_name ts"
    by (rule mapM_keys[OF s]) (auto simp: init_boundary_size_def ebind_Inr)
  with s show ?thesis by auto
qed

lemma init_entity_autoencoders_None:
  assumes "sizes (et_name t) = Some sz"
  shows "init_entity_autoencoders fa d [] reverse None sizes t =
     (if et_relation_fields t \<noteq> [] \<or> (reverse \<and> et_reverse_relation_fields t \<noteq> [])
      then Inl TypeError
      else Inr (et_name t, Autoencoder fa [sz] # map (\<lambda>_. Autoencoder fa [sz]) [0..<d]))"
  using assms
  by (auto simp: init_entity_autoencoders_def getitem_def add_bottlenecks_None Let_def)

lemma init_projector_None:
  assumes "et_relation_fields t = []" "reverse \<longrightarrow> et_reverse_relation_fields t = []"
  shows "\<exists>y. init_projector fa d reverse None sizes psize t = Inr y"
  using assms
  by (auto simp: init_projector_def add_bottlenecks_None Let_def)


lemma ModuleDict_ok:
  "\<forall>k\<in>fst ` set kvs. module_key_ok has_attr k \<Longrightarrow> ModuleDict has_attr kvs = Inr (dict_of kvs)"
  by (auto simp: ModuleDict_def list_all_iff)

text \<open>
  C8, as amended. Let every data field of the schema have a registered encoder, let every
  entity type declare data fields of the schema only, let the names of the data fields,
  of the entity types and of the relations be names that \<^verbatim>\<open>torch.nn.ModuleDict\<close>
  accepts, and let the shape sequence be empty, so that the bottleneck width is undefined.
  Then requesting a depth above 0 is a construction-time error (a TypeError) when some
  entity type declares an outgoing relation, or an incoming one under reverse relations;
  and when no entity type declares such a relation, and there is an entity type or a given
  projected size, the model is constructed, for depth 0 and for any other depth, with the
  bottleneck width undefined.
\<close>

theorem empty_shapes_construction:
  assumes reg: "\<forall>f\<in>set (data_fields sc). field_model_classes fa f \<noteq> None"
    and decl: "\<forall>t\<in>set (entity_types sc). set (et_data_fields t) \<subseteq> field_name ` set (data_fields sc)"
    and fnames: "\<forall>f\<in>set (data_fields sc). module_key_ok (module_attributes fa) (field_name f)"
    and tnames: "\<forall>t\<in>set (entity_types sc). module_key_ok (module_attributes fa) (et_name t)"
    and rnames: "\<forall>r\<in>set (relation_fields sc). module_key_ok (module_attributes fa) (field_name r)"
  shows "(d > 0 \<and> (\<exists>t\<in>set (entity_types sc).
              et_relation_fields t \<noteq> [] \<or> (reverse \<and> et_reverse_relation_fields t \<noteq> []))
            \<longrightarrow> GraphAutoencoder_init fa sc d [] reverse projected base = Inl TypeError)
       \<and> ((\<forall>t\<in>set (entity_types sc).
              et_relation_fields t = [] \<and> (reverse \<longrightarrow> et_reverse_relation_fields t = []))
            \<and> (projected \<noteq> None \<or> entity_types sc \<noteq> [])
            \<longrightarrow> (\<exists>m. GraphAutoencoder_init fa sc d [] reverse projected base = Inr m
                     \<and> bottleneck_size m = None \<and> depth m = d))"
proof -
  from init_field_encoders_total[OF reg] obtain encs where
    encs: "init_field_encoders fa sc = Inr encs" "map fst encs = map field_name (data_fields sc)"
    by auto
  have "\<forall>t\<in>set (entity_types sc). set (et_data_fields t) \<subseteq> fst ` set encs"
  proof -
    have "fst ` set encs = field_name ` set (data_fields sc)"
      using encs(2) by (metis set_map)
    with decl show ?thesis by simp
  qed
  have md_encs: "ModuleDict (module_attributes fa) encs = Inr (dict_of encs)"
  proof (rule ModuleDict_ok)
    have "fst ` set encs = field_name ` set (data_fields sc)"
      using encs(2) by (metis set_map)
    with fnames show "\<forall>k\<in>fst ` set encs. module_key_ok (module_attributes fa) k" by auto
  qed
  from init_boundary_sizes_total[OF \<open>\<forall>t\<in>set (entity_types sc). set (et_data_fields t) \<subseteq> fst ` set encs\<close>, of base] obtain sizes where
    sizes: "mapM (init_boundary_size base (dict_of encs)) (entity_types sc) = Inr sizes"
      "map fst sizes = map et_name (entity_types sc)"
    by auto
  have key: "\<exists>sz. dict_of sizes (et_name t) = Some sz" if "t \<in> set (entity_types sc)" for t
  proof -
    have "fst ` set sizes = et_name ` set (entity_types sc)"
      using sizes(2) by (metis set_map)
    with that have "et_name t \<in> fst ` set sizes" by simp
    then show ?thesis by (rule dict_of_dom)
  qed
  let ?ae = "init_entity_autoencoders fa d [] reverse None (dict_of sizes)"
  have bs: "init_bottleneck_size [] = None" by (simp add: init_bottleneck_size_def)
  show ?thesis
  proof (intro conjI impI)
    assume "d > 0 \<and> (\<exists>t\<in>set (entity_types sc).
              et_relation_fields t \<noteq> [] \<or> (reverse \<and> et_reverse_relation_fields t \<noteq> []))"
    then obtain t where t: "t \<in> set (entity_types sc)"
      "et_relation_fields t \<noteq> [] \<or> (reverse \<and> et_reverse_relation_fields t \<noteq> [])" by blast
    have "?ae x = Inl TypeError \<or> (\<exists>y. ?ae x = Inr y)" if "x \<in> set (entity_types sc)" for x
    proof -
      from key[OF that] obtain sz where sz: "dict_of sizes (et_name x) = Some sz" by auto
      from init_entity_autoencoders_None[where sizes = "dict_of sizes" and t = x and sz = sz
          and fa = fa and d = d and reverse = reverse, OF sz]
      show ?thesis
        by (cases "et_relation_fields x \<noteq> [] \<or> (reverse \<and> et_reverse_relation_fields x \<noteq> [])")
           simp_all
    qed
    moreover from key[OF t(1)] t(2) have "?ae t = Inl TypeError"
      by (auto simp: init_entity_autoencoders_None)
    with t(1) have "\<exists>x\<in>set (entity_types sc). ?ae x = Inl TypeError" by blast
    ultimately have "mapM ?ae (entity_types sc) = Inl TypeError" by (rule mapM_raises)
    with encs(1) md_encs sizes(1) bs
    show "GraphAutoencoder_init fa sc d [] reverse projected base = Inl TypeError"
      by (simp add: GraphAutoencoder_init_def Let_def)
  next
    assume a: "(\<forall>t\<in>set (entity_types sc).
              et_relation_fields t = [] \<and> (reverse \<longrightarrow> et_reverse_relation_fields t = []))
            \<and> (projected \<noteq> None \<or> entity_types sc \<noteq> [])"
    have "\<exists>y. ?ae x = Inr y" if "x \<in> set (entity_types sc)" for x
      using key[OF that] a that by (auto simp: init_entity_autoencoders_None)
    from mapM_total[of "entity_types sc" ?ae, OF this] obtain aes where
      aes: "mapM ?ae (entity_types sc) = Inr aes" by auto
    have "map fst aes = map et_name (entity_types sc)"
      by (rule mapM_keys[OF aes])
         (auto simp: init_entity_autoencoders_def ebind_Inr Let_def split: if_splits)
    then have "fst ` set aes = et_name ` set (entity_types sc)" by (metis set_map)
    with tnames have md_aes: "ModuleDict (module_attributes fa) aes = Inr (dict_of aes)"
      by (intro ModuleDict_ok) auto
    let ?summs = "map (\<lambda>r. (field_name r, summarizers fa None)) (relation_fields sc)"
    have md_summs: "ModuleDict (module_attributes fa) ?summs = Inr (dict_of ?summs)"
      using rnames by (intro ModuleDict_ok) auto
    have "sizes \<noteq> []" if "entity_types sc \<noteq> []"
      using sizes(2) that by auto
    with a obtain psize where psize: "init_projected_size projected (map snd sizes) = Inr psize"
      by (cases projected; cases sizes) (auto simp: init_projected_size_def)
    let ?pr = "init_projector fa d reverse None (dict_of sizes) psize"
    have "\<exists>y. ?pr x = Inr y" if "x \<in> set (entity_types sc)" for x
      using a that by (intro init_projector_None) auto
    from mapM_total[of "entity_types sc" ?pr, OF this] obtain projs where
      projs: "mapM ?pr (entity_types sc) = Inr projs" by auto
    have "map fst projs = map et_name (entity_types sc)"
      by (rule mapM_keys[OF projs]) (auto simp: init_projector_def ebind_Inr Let_def)
    then have "fst ` set projs = et_name ` set (entity_types sc)" by (metis set_map)
    with tnames have md_projs: "ModuleDict (module_attributes fa) projs = Inr (dict_of projs)"
      by (intro ModuleDict_ok) auto
    let ?dec = "\<lambda>f. case field_model_classes fa f of
                          None \<Rightarrow> Inl KeyError
                        | Some (enc, dec) \<Rightarrow> Inr (field_name f, dec psize)"
    have "\<exists>y. ?dec x = Inr y" if "x \<in> set (data_fields sc)" for x
      using that reg by (auto split: option.splits)
    from mapM_total[of "data_fields sc" ?dec, OF this] obtain decs where
      decs: "mapM ?dec (data_fields sc) = Inr decs" by auto
    have "map fst decs = map field_name (data_fields sc)"
      by (rule mapM_keys[OF decs]) (auto split: option.splits)
    then have "fst ` set decs = field_name ` set (data_fields sc)" by (metis set_map)
    with fnames have md_decs: "ModuleDict (module_attributes fa) decs = Inr (dict_of decs)"
      by (intro ModuleDict_ok) auto
    from encs(1) md_encs sizes(1) aes md_aes md_summs psize projs md_projs decs md_decs bs
    show "\<exists>m. GraphAutoencoder_init fa sc d [] reverse projected base = Inr m
                     \<and> bottleneck_size m = None \<and> depth m = d"
      by (simp add: GraphAutoencoder_init_def Let_def)
  qed
qed

text \<open>
  C8 as the specification states it fails. Over the schema without a relation, a model of
  depth 1 with an empty shape sequence is constructed; the model of depth 0 is constructed
  as well, but its \<^verbatim>\<open>forward\<close> raises a TypeError at line 184; and over the schema with
  the relation the construction with depth 0 raises.
\<close>

theorem empty_shapes_not_as_stated:
  "\<not> isl (GraphAutoencoder_init ex_factories ex_schema_norel 1 [] False None 8)
   \<and> \<not> isl (GraphAutoencoder_init ex_factories ex_schema_norel 0 [] False None 8)
   \<and> forward (ex_model_norel 0 []) ex_batch ex_adjacency = Inl TypeError
   \<and> GraphAutoencoder_init ex_factories ex_schema 0 [] False None 8 = Inl TypeError"
  by (simp add: ex_model_norel_def ex_schema_norel_def ex_eval)

text \<open>
  The amended statement at the instance: the schema with the relation at depth 1, and the
  schema without it at depth 0.
\<close>

theorem empty_shapes_construction_witness:
  "(1::nat) > 0
   \<and> (\<exists>t\<in>set (entity_types ex_schema). et_relation_fields t \<noteq> [])
   \<and> GraphAutoencoder_init ex_factories ex_schema 1 [] False None 8 = Inl TypeError
   \<and> (\<exists>m. GraphAutoencoder_init ex_factories ex_schema_norel 0 [] False None 8 = Inr m
          \<and> bottleneck_size m = None \<and> depth m = 0)"
proof -
  have reg: "\<forall>f\<in>set (data_fields ex_schema). field_model_classes ex_factories f \<noteq> None"
    and decl: "\<forall>t\<in>set (entity_types ex_schema).
                 set (et_data_fields t) \<subseteq> field_name ` set (data_fields ex_schema)"
    and rel: "\<exists>t\<in>set (entity_types ex_schema). et_relation_fields t \<noteq> []"
    and fnames: "\<forall>f\<in>set (data_fields ex_schema).
                   module_key_ok (module_attributes ex_factories) (field_name f)"
    and tnames: "\<forall>t\<in>set (entity_types ex_schema).
                   module_key_ok (module_attributes ex_factories) (et_name t)"
    and rnames: "\<forall>r\<in>set (relation_fields ex_schema).
                   module_key_ok (module_attributes ex_factories) (field_name r)"
    by (simp_all add: ex_defs field_name_def attrs_def module_key_ok_def)
  have reg': "\<forall>f\<in>set (data_fields ex_schema_norel). field_model_classes ex_factories f \<noteq> None"
    and decl': "\<forall>t\<in>set (entity_types ex_schema_norel).
                 set (et_data_fields t) \<subseteq> field_name ` set (data_fields ex_schema_norel)"
    and norel: "\<forall>t\<in>set (entity_types ex_schema_norel).
                 et_relation_fields t = [] \<and> (False \<longrightarrow> et_reverse_relation_fields t = [])"
    and types: "entity_types ex_schema_norel \<noteq> []"
    and fnames': "\<forall>f\<in>set (data_fields ex_schema_norel).
                   module_key_ok (module_attributes ex_factories) (field_name f)"
    and tnames': "\<forall>t\<in>set (entity_types ex_schema_norel).
                   module_key_ok (module_attributes ex_factories) (et_name t)"
    and rnames': "\<forall>r\<in>set (relation_fields ex_schema_norel).
                   module_key_ok (module_attributes ex_factories) (field_name r)"
    by (simp_all add: ex_schema_norel_def ex_defs field_name_def attrs_def module_key_ok_def)
  from empty_shapes_construction[OF reg decl fnames tnames rnames, of 1 False None 8] rel
  have "GraphAutoencoder_init ex_factories ex_schema 1 [] False None 8 = Inl TypeError"
    by simp
  moreover from empty_shapes_construction[OF reg' decl' fnames' tnames' rnames', of 0 False None 8]
    norel types
  have "\<exists>m. GraphAutoencoder_init ex_factories ex_schema_norel 0 [] False None 8 = Inr m
          \<and> bottleneck_size m = None \<and> depth m = 0"
    by simp
  ultimately show ?thesis using rel by simp
qed

text \<open>A field or an entity type named \<open>type\<close> is refused by \<^verbatim>\<open>torch.nn.ModuleDict\<close>.\<close>

lemma module_key_type:
  "ModuleDict (module_attributes ex_factories) [(''type'', x)] = Inl KeyError"
  by (simp add: ModuleDict_def module_key_ok_def ex_factories_def)
section \<open>The forward pass on well-formed arguments\<close>

subsection \<open>Loops with an invariant\<close>

lemma foldM_inv:
  assumes "I s"
    and "\<And>x s. x \<in> set xs \<Longrightarrow> I s \<Longrightarrow> \<exists>s'. f x s = Inr s' \<and> I s'"
  shows "\<exists>s'. foldM f xs s = Inr s' \<and> I s'"
  using assms
proof (induction xs arbitrary: s)
  case Nil
  then show ?case by simp
next
  case (Cons x xs)
  from Cons.prems(2)[of x s] Cons.prems(1) obtain s1 where s1: "f x s = Inr s1" "I s1"
    by auto
  have "\<exists>s'. foldM f xs s1 = Inr s' \<and> I s'"
  proof (rule Cons.IH[OF s1(2)])
    fix y t
    assume "y \<in> set xs" "I t"
    then show "\<exists>s'. f y t = Inr s' \<and> I s'" using Cons.prems(2)[of y t] by simp
  qed
  with s1 show ?case by simp
qed

lemma foldM_inv_dom:
  assumes "I s"
    and "\<And>x s. x \<in> set xs \<Longrightarrow> I s \<Longrightarrow>
           \<exists>s'. f x s = Inr s' \<and> I s' \<and> D s' (k x) \<and> (\<forall>n. D s n \<longrightarrow> D s' n)"
  shows "\<exists>s'. foldM f xs s = Inr s' \<and> I s' \<and> (\<forall>x\<in>set xs. D s' (k x)) \<and> (\<forall>n. D s n \<longrightarrow> D s' n)"
  using assms
proof (induction xs arbitrary: s)
  case Nil
  then show ?case by simp
next
  case (Cons x xs)
  from Cons.prems(2)[of x s] Cons.prems(1) obtain s1 where
    s1: "f x s = Inr s1" "I s1" "D s1 (k x)" "\<forall>n. D s n \<longrightarrow> D s1 n"
    by auto
  have "\<exists>s'. foldM f xs s1 = Inr s' \<and> I s' \<and> (\<forall>x\<in>set xs. D s' (k x)) \<and> (\<forall>n. D s1 n \<longrightarrow> D s' n)"
  proof (rule Cons.IH[OF s1(2)])
    fix y t
    assume "y \<in> set xs" "I t"
    then show "\<exists>s'. f y t = Inr s' \<and> I s' \<and> D s' (k y) \<and> (\<forall>n. D t n \<longrightarrow> D s' n)"
      using Cons.prems(2)[of y t] by simp
  qed
  then obtain s2 where s2: "foldM f xs s1 = Inr s2" "I s2" "\<forall>x\<in>set xs. D s2 (k x)"
    "\<forall>n. D s1 n \<longrightarrow> D s2 n" by auto
  from s1 s2 show ?case by auto
qed

lemma foldM_post:
  assumes "foldM f xs s = Inr s'" "I s"
    and "\<And>x s s'. x \<in> set xs \<Longrightarrow> I s \<Longrightarrow> f x s = Inr s' \<Longrightarrow> I s'"
  shows "I s'"
  using assms
proof (induction xs arbitrary: s)
  case Nil
  then show ?case by simp
next
  case (Cons x xs)
  from Cons.prems(1) obtain s1 where s1: "f x s = Inr s1" "foldM f xs s1 = Inr s'"
    by (auto simp: ebind_Inr)
  from Cons.prems(3)[of x s s1] Cons.prems(2) s1(1) have "I s1" by simp
  show ?case
  proof (rule Cons.IH[OF s1(2) \<open>I s1\<close>])
    fix y t t'
    assume "y \<in> set xs" "I t" "f y t = Inr t'"
    then show "I t'" using Cons.prems(3)[of y t t'] by simp
  qed
qed

lemma mapM_dict:
  assumes "mapM f xs = Inr ys"
    and "\<And>x y. x \<in> set xs \<Longrightarrow> f x = Inr y \<Longrightarrow> fst (g y) = k x"
    and "x \<in> set xs"
  shows "\<exists>v x' y. dict_of (map g ys) (k x) = Some v \<and> x' \<in> set xs \<and> f x' = Inr y
           \<and> g y = (k x, v)"
proof -
  from mapM_mem[OF assms(1,3)] obtain y where y: "y \<in> set ys" "f x = Inr y" by auto
  with assms(2,3) have "fst (g y) = k x" by simp
  then have "g y = (k x, snd (g y))" by (metis prod.collapse)
  with y(1) have "(k x, snd (g y)) \<in> set (map g ys)" by (metis image_eqI set_map)
  from dict_of_key[OF this] obtain v where v: "dict_of (map g ys) (k x) = Some v" by auto
  from dict_of_SomeD[OF v] obtain y' where y': "y' \<in> set ys" "g y' = (k x, v)" by auto
  from mapM_mem_rev[OF assms(1) y'(1)] obtain x' where "x' \<in> set xs" "f x' = Inr y'" by auto
  with v y' show ?thesis by blast
qed

lemma mapM_all:
  assumes "\<And>x. x \<in> set xs \<Longrightarrow> \<exists>y. f x = Inr y \<and> P y"
  shows "\<exists>ys. mapM f xs = Inr ys \<and> length ys = length xs \<and> list_all P ys"
  using assms
proof (induction xs)
  case Nil
  then show ?case by simp
next
  case (Cons x xs)
  from Cons.prems[of x] obtain y where y: "f x = Inr y" "P y" by auto
  from Cons have "\<exists>ys. mapM f xs = Inr ys \<and> length ys = length xs \<and> list_all P ys" by simp
  then obtain ys where "mapM f xs = Inr ys" "length ys = length xs" "list_all P ys" by auto
  with y show ?case by simp
qed

subsection \<open>The tensor operations on operands that fit\<close>

lemma masked_select_ok:
  "length msk = length xs \<Longrightarrow> \<exists>i. masked_select xs msk = Inr i \<and> set i \<subseteq> set xs"
proof -
  assume l: "length msk = length xs"
  have "set (map fst (filter snd (zip xs msk))) \<subseteq> set xs"
    by (auto dest: set_zip_leftD)
  with l show ?thesis by (simp add: masked_select_def)
qed

lemma masked_select_below:
  "length msk = n \<Longrightarrow> \<exists>i. masked_select [0..<n] msk = Inr i \<and> list_all (\<lambda>j. j < n) i"
proof -
  assume "length msk = n"
  with masked_select_ok[of msk "[0..<n]"] obtain i where
    i: "masked_select [0..<n] msk = Inr i" "set i \<subseteq> set [0..<n]" by auto
  from i(2) have "\<forall>j\<in>set i. j < n" by fastforce
  with i(1) show ?thesis by (simp add: list_all_iff)
qed

lemma fold_update_set:
  "set (fold (\<lambda>(i, r) rs. rs[i := r]) ps rs) \<subseteq> set rs \<union> snd ` set ps"
proof (induction ps arbitrary: rs)
  case Nil
  then show ?case by simp
next
  case (Cons p ps)
  obtain i r where p: "p = (i, r)" by (cases p)
  have "set (rs[i := r]) \<subseteq> insert r (set rs)" by (rule set_update_subset_insert)
  with Cons[of "rs[i := r]"] show ?case by (auto simp: p)
qed

lemma index_put_ok:
  assumes "list_all (\<lambda>i. i < length (rows t)) idx" "length (rows src) = length idx"
    "ncols src = ncols t"
  shows "\<exists>t'. index_put t idx src = Inr t' \<and> ncols t' = ncols t
           \<and> length (rows t') = length (rows t)
           \<and> (wf_tensor t \<and> wf_tensor src \<longrightarrow> wf_tensor t')"
proof -
  let ?rs = "fold (\<lambda>(i, r) rs. rs[i := r]) (zip idx (rows src)) (rows t)"
  from assms have e: "index_put t idx src = Inr (t\<lparr>rows := ?rs\<rparr>)"
    by (simp add: index_put_def)
  have "set ?rs \<subseteq> set (rows t) \<union> snd ` set (zip idx (rows src))" by (rule fold_update_set)
  moreover have "snd ` set (zip idx (rows src)) \<subseteq> set (rows src)"
    by (auto dest: set_zip_rightD)
  ultimately have "set ?rs \<subseteq> set (rows t) \<union> set (rows src)" by blast
  with assms(3) have "wf_tensor t \<and> wf_tensor src \<longrightarrow> wf_tensor (t\<lparr>rows := ?rs\<rparr>)"
    by (auto simp: wf_tensor_def list_all_iff)
  with e show ?thesis by (simp add: fold_update_length)
qed

lemma index_select_ok:
  "list_all (\<lambda>i. i < length (rows t)) idx \<Longrightarrow>
   \<exists>u. index_select t idx = Inr u \<and> ncols u = ncols t \<and> length (rows u) = length idx
        \<and> rows u = map (\<lambda>i. rows t ! i) idx"
  by (simp add: index_select_def)

lemma cat1_ok:
  assumes "list_all (\<lambda>u. length (rows u) = n) ts" "ts \<noteq> []"
  shows "\<exists>x. cat1 ts = Inr x \<and> ncols x = sum_list (map ncols ts) \<and> length (rows x) = n
           \<and> (\<forall>i<n. rows x ! i = concat (map (\<lambda>u. rows u ! i) ts))"
proof (cases ts)
  case Nil
  with assms show ?thesis by simp
next
  case (Cons t us)
  with assms have "list_all (\<lambda>u. length (rows u) = length (rows t)) us" "length (rows t) = n"
    by (auto simp: list_all_iff)
  then show ?thesis by (simp add: Cons)
qed

lemma cat1_Inr:
  assumes "cat1 ts = Inr x"
  shows "ts \<noteq> []" and "length (rows x) = length (rows (hd ts))"
    and "\<And>u. u \<in> set ts \<Longrightarrow> length (rows u) = length (rows x)"
    and "\<And>i. i < length (rows x) \<Longrightarrow> rows x ! i = concat (map (\<lambda>u. rows u ! i) ts)"
proof -
  from assms obtain t us where ts: "ts = t # us" by (cases ts) simp_all
  with assms have a: "list_all (\<lambda>u. length (rows u) = length (rows t)) us"
    and x: "x = \<lparr>ncols = sum_list (map ncols (t # us)),
                rows = map (\<lambda>i. concat (map (\<lambda>u. rows u ! i) (t # us))) [0..<length (rows t)]\<rparr>"
    by (simp_all split: if_splits)
  show "ts \<noteq> []" by (simp add: ts)
  show "length (rows x) = length (rows (hd ts))" by (simp add: ts x)
  show "length (rows u) = length (rows x)" if "u \<in> set ts" for u
    using that a by (auto simp: ts x list_all_iff)
  show "rows x ! i = concat (map (\<lambda>u. rows u ! i) ts)" if "i < length (rows x)" for i
    using that by (simp add: ts x)
qed

lemma concat_segment:
  "list_all (\<lambda>s. length s = b) segs \<Longrightarrow> k < length segs \<Longrightarrow>
   take b (drop (k * b) (concat segs)) = segs ! k"
proof (induction segs arbitrary: k)
  case Nil
  then show ?case by simp
next
  case (Cons s segs)
  show ?case
  proof (cases k)
    case 0
    with Cons.prems show ?thesis by simp
  next
    case (Suc j)
    with Cons.prems have "take b (drop (j * b) (concat segs)) = segs ! j"
      by (intro Cons.IH) simp_all
    with Cons.prems Suc show ?thesis by simp
  qed
qed
subsection \<open>Lines 139-155: the index sets\<close>

lemma wf_batch_col:
  assumes "wf_batch sc es" "f \<in> set (data_fields sc)"
  shows "\<exists>c. cols es (field_name f) = Some c \<and> length (rows c) = length (types es)
           \<and> (field_type_name f \<notin> set [''sequential'', ''text'']
                \<longrightarrow> 0 < length (rows c) \<and> 0 < ncols c)"
proof -
  from assms have "case cols es (field_name f) of
                        None \<Rightarrow> False
                      | Some c \<Rightarrow>
                          length (rows c) = length (types es)
                          \<and> (if field_type_name f \<in> set [''sequential'', ''text'']
                             then True
                             else 0 < length (rows c) \<and> 0 < ncols c)"
    unfolding wf_batch_def list_all_iff by blast
  then show ?thesis
    by (cases "cols es (field_name f)"; cases "field_type_name f \<in> set [''sequential'', ''text'']")
       simp_all
qed

lemma field_mask_ok:
  assumes "wf_batch sc es" "f \<in> set (data_fields sc)"
  shows "\<exists>msk. field_mask es f = Inr msk \<and> length msk = length (types es)"
proof -
  from wf_batch_col[OF assms] obtain c where c: "cols es (field_name f) = Some c"
    "length (rows c) = length (types es)"
    "field_type_name f \<notin> set [''sequential'', ''text'']
                \<longrightarrow> 0 < length (rows c) \<and> 0 < ncols c" by blast
  show ?thesis
  proof (cases "field_type_name f \<in> set [''sequential'', ''text'']")
    case True
    with c(1,2) show ?thesis by (simp add: field_mask_def getitem_def)
  next
    case False
    with c(3) have "rows c \<noteq> []" "ncols c \<noteq> 0" by auto
    with False c(1) have "field_mask es f = Inr (map (\<lambda>r. \<not> isnan (row_sum r)) (rows c))"
      by (simp add: field_mask_def getitem_def)
    with c(2) show ?thesis by simp
  qed
qed

lemma index_field_ok:
  assumes "wf_batch sc es" "f \<in> set (data_fields sc)"
  shows "\<exists>msk i. index_field es f = Inr (field_name f, msk, i)
           \<and> length msk = length (types es) \<and> list_all (\<lambda>j. j < length (types es)) i"
proof -
  from field_mask_ok[OF assms] obtain msk where m: "field_mask es f = Inr msk"
    "length msk = length (types es)" by blast
  from masked_select_below[OF m(2)] obtain i where
    "masked_select [0..<length (types es)] msk = Inr i" "list_all (\<lambda>j. j < length (types es)) i"
    by blast
  with m show ?thesis by (simp add: index_field_def index_space_def)
qed

lemma index_entity_field_ok:
  assumes "fmasks fn = Some fm" "length fm = length (types es)"
  shows "\<exists>y. index_entity_field es fmasks n (entity_mask es n) fn = Inr y"
proof -
  have l: "length (entity_mask es n) = length fm" using assms(2) by (simp add: entity_mask_def)
  then have a: "mask_and (entity_mask es n) fm
      = Inr (map (\<lambda>(x, y). x \<and> y) (zip (entity_mask es n) fm))"
    by (simp add: mask_and_def)
  have "length (map (\<lambda>(x, y). x \<and> y) (zip (entity_mask es n) fm)) = length (index_space es)"
    using l assms(2) by (simp add: index_space_def)
  from masked_select_ok[OF this] a assms(1) show ?thesis
    by (auto simp: index_entity_field_def getitem_def)
qed

lemma index_entity_type_ok:
  assumes "\<And>fn. fn \<in> set (et_data_fields t) \<Longrightarrow>
             \<exists>fm. fmasks fn = Some fm \<and> length fm = length (types es)"
  shows "\<exists>em ei efs. index_entity_type es fmasks t = Inr (et_name t, em, ei, efs)
           \<and> list_all (\<lambda>j. j < length (types es)) ei"
proof -
  have "length (entity_mask es (et_name t)) = length (types es)" by (simp add: entity_mask_def)
  from masked_select_below[OF this] obtain ei where
    ei: "masked_select (index_space es) (entity_mask es (et_name t)) = Inr ei"
    "list_all (\<lambda>j. j < length (types es)) ei"
    by (auto simp: index_space_def)
  have "\<exists>y. index_entity_field es fmasks (et_name t) (entity_mask es (et_name t)) fn = Inr y"
    if "fn \<in> set (et_data_fields t)" for fn
    using assms[OF that] index_entity_field_ok by blast
  from mapM_total[of "et_data_fields t"
      "index_entity_field es fmasks (et_name t) (entity_mask es (et_name t))", OF this]
  obtain efs where
    "mapM (index_entity_field es fmasks (et_name t) (entity_mask es (et_name t)))
       (et_data_fields t) = Inr efs" by blast
  with ei show ?thesis by (simp add: index_entity_type_def Let_def)
qed

lemma compute_indexing_ok:
  assumes b: "wf_batch sc es"
    and decl: "\<And>t. t \<in> set (entity_types sc) \<Longrightarrow>
                 set (et_data_fields t) \<subseteq> field_name ` set (data_fields sc)"
  shows "\<exists>ix. compute_indexing sc es = Inr ix \<and> ix_ok sc es ix"
proof -
  let ?P = "\<lambda>y. case y of (n, msk, i) \<Rightarrow>
              length msk = length (types es) \<and> list_all (\<lambda>j. j < length (types es)) i"
  have "\<exists>y. index_field es f = Inr y \<and> ?P y" if "f \<in> set (data_fields sc)" for f
    using index_field_ok[OF b that] by auto
  from mapM_all[of "data_fields sc" "index_field es" ?P, OF this] obtain fs where
    fs: "mapM (index_field es) (data_fields sc) = Inr fs" "list_all ?P fs" by blast
  have key1: "fst (case y of (n, msk, i) \<Rightarrow> (n, msk)) = field_name f"
    if "f \<in> set (data_fields sc)" "index_field es f = Inr y" for f y
    using index_field_ok[OF b that(1)] that(2) by auto
  have key2: "fst (case y of (n, msk, i) \<Rightarrow> (n, i)) = field_name f"
    if "f \<in> set (data_fields sc)" "index_field es f = Inr y" for f y
    using index_field_ok[OF b that(1)] that(2) by auto
  let ?fmasks = "dict_of (map (\<lambda>(n, m, i). (n, m)) fs)"
  have fm: "\<exists>fm. ?fmasks (field_name f) = Some fm \<and> length fm = length (types es)"
    if f: "f \<in> set (data_fields sc)" for f
  proof -
    from mapM_dict[where g = "\<lambda>(n, m, i). (n, m)" and k = field_name, OF fs(1) key1 f]
    obtain v x' y where v: "?fmasks (field_name f) = Some v" "x' \<in> set (data_fields sc)"
        "index_field es x' = Inr y" "(case y of (n, m, i) \<Rightarrow> (n, m)) = (field_name f, v)"
      by blast
    from mapM_mem[OF fs(1) v(2)] v(3) have "y \<in> set fs" by auto
    note v = v(1) this v(4)
    from fs(2) v(2) have "?P y" by (simp add: list_all_iff)
    with v(3) have "length v = length (types es)" by (auto split: prod.splits)
    with v(1) show ?thesis by simp
  qed
  have fi: "\<exists>i. dict_of (map (\<lambda>(n, m, i). (n, i)) fs) (field_name f) = Some i
              \<and> list_all (\<lambda>j. j < length (types es)) i"
    if f: "f \<in> set (data_fields sc)" for f
  proof -
    from mapM_dict[where g = "\<lambda>(n, m, i). (n, i)" and k = field_name, OF fs(1) key2 f]
    obtain v x' y where v: "dict_of (map (\<lambda>(n, m, i). (n, i)) fs) (field_name f) = Some v"
        "x' \<in> set (data_fields sc)" "index_field es x' = Inr y"
        "(case y of (n, m, i) \<Rightarrow> (n, i)) = (field_name f, v)"
      by blast
    from mapM_mem[OF fs(1) v(2)] v(3) have "y \<in> set fs" by auto
    note v = v(1) this v(4)
    from fs(2) v(2) have "?P y" by (simp add: list_all_iff)
    with v(3) have "list_all (\<lambda>j. j < length (types es)) v" by (auto split: prod.splits)
    with v(1) show ?thesis by simp
  qed
  let ?Q = "\<lambda>y. case y of (n, em, ei, efs) \<Rightarrow> list_all (\<lambda>j. j < length (types es)) ei"
  have "\<exists>y. index_entity_type es ?fmasks t = Inr y \<and> ?Q y" if t: "t \<in> set (entity_types sc)" for t
  proof -
    have "\<exists>fm. ?fmasks fn = Some fm \<and> length fm = length (types es)"
      if "fn \<in> set (et_data_fields t)" for fn
      using decl[OF t] that fm by blast
    from index_entity_type_ok[of t ?fmasks es, OF this] show ?thesis by auto
  qed
  from mapM_all[of "entity_types sc" "index_entity_type es ?fmasks" ?Q, OF this] obtain ts where
    ts: "mapM (index_entity_type es ?fmasks) (entity_types sc) = Inr ts" "list_all ?Q ts" by blast
  have ei: "\<exists>i. dict_of (map (\<lambda>(n, em, ei, efs). (n, ei)) ts) (et_name t) = Some i
              \<and> list_all (\<lambda>j. j < length (types es)) i"
    if t: "t \<in> set (entity_types sc)" for t
  proof -
    have k: "fst (case y of (n, em, ei, efs) \<Rightarrow> (n, ei)) = et_name x"
      if "index_entity_type es ?fmasks x = Inr y" for x y
      using that by (auto simp: index_entity_type_def Let_def ebind_Inr)
    from mapM_dict[where g = "\<lambda>(n, em, ei, efs). (n, ei)" and k = et_name, OF ts(1) k t]
    obtain v x' y where v: "dict_of (map (\<lambda>(n, em, ei, efs). (n, ei)) ts) (et_name t) = Some v"
      "x' \<in> set (entity_types sc)" "index_entity_type es ?fmasks x' = Inr y"
      "(case y of (n, em, ei, efs) \<Rightarrow> (n, ei)) = (et_name t, v)" by blast
    from mapM_mem[OF ts(1) v(2)] v(3) have "y \<in> set ts" by auto
    with ts(2) have "?Q y" by (simp add: list_all_iff)
    with v(4) have "list_all (\<lambda>j. j < length (types es)) v" by (auto split: prod.splits)
    with v(1) show ?thesis by simp
  qed
  let ?ix = "\<lparr>entity_indices = dict_of (map (\<lambda>(n, em, ei, efs). (n, ei)) ts),
          entity_masks = dict_of (map (\<lambda>(n, em, ei, efs). (n, em)) ts),
          field_indices = dict_of (map (\<lambda>(n, m, i). (n, i)) fs),
          field_masks = ?fmasks,
          entity_field_indices =
            dict_of (concat (map (\<lambda>(n, em, ei, efs). map (\<lambda>(k, efm, efi). (k, efi)) efs) ts)),
          entity_field_masks =
            dict_of (concat (map (\<lambda>(n, em, ei, efs). map (\<lambda>(k, efm, efi). (k, efm)) efs) ts))\<rparr>"
  from fs(1) ts(1) have "compute_indexing sc es = Inr ?ix"
    by (simp add: compute_indexing_def Let_def)
  moreover have "ix_ok sc es ?ix"
    unfolding ix_ok_def list_all_iff
  proof (intro conjI ballI)
    fix f assume "f \<in> set (data_fields sc)"
    from fi[OF this] show "case field_indices ?ix (field_name f) of
                       None \<Rightarrow> False
                     | Some fi \<Rightarrow> \<forall>i\<in>set fi. i < length (types es)"
      by (auto simp: list_all_iff)
  next
    fix t assume "t \<in> set (entity_types sc)"
    from ei[OF this] show "case entity_indices ?ix (et_name t) of
                         None \<Rightarrow> False
                       | Some ei \<Rightarrow> \<forall>i\<in>set ei. i < length (types es)"
      by (auto simp: list_all_iff)
  qed
  ultimately show ?thesis by blast
qed

lemma ix_ok_field:
  "ix_ok sc es ix \<Longrightarrow> f \<in> set (data_fields sc) \<Longrightarrow>
   \<exists>fi. field_indices ix (field_name f) = Some fi \<and> list_all (\<lambda>i. i < length (types es)) fi"
  unfolding ix_ok_def list_all_iff
  by (cases "field_indices ix (field_name f)") (auto split: option.splits)

lemma ix_ok_entity:
  "ix_ok sc es ix \<Longrightarrow> t \<in> set (entity_types sc) \<Longrightarrow>
   \<exists>ei. entity_indices ix (et_name t) = Some ei \<and> list_all (\<lambda>i. i < length (types es)) ei"
  unfolding ix_ok_def list_all_iff
  by (cases "entity_indices ix (et_name t)") (auto split: option.splits)
subsection \<open>What a well-formed model provides\<close>

lemma wf_model_field:
  assumes "wf_model m b" "f \<in> set (data_fields (schema m))"
  shows "\<exists>enc dec. field_encoders m (field_name f) = Some enc
           \<and> shape_preserving (output_size enc) (encode enc)
           \<and> field_decoders m (field_name f) = Some dec"
proof -
  from assms have "(case field_encoders m (field_name f) of
                         None \<Rightarrow> False
                       | Some enc \<Rightarrow> shape_preserving (output_size enc) (encode enc))
                      \<and> field_decoders m (field_name f) \<noteq> None"
    unfolding wf_model_def list_all_iff by blast
  then show ?thesis by (cases "field_encoders m (field_name f)") auto
qed

lemma wf_model_type:
  "wf_model m b \<Longrightarrow> t \<in> set (entity_types (schema m)) \<Longrightarrow> wf_entity_type m b t"
  unfolding wf_model_def list_all_iff by blast

lemma wf_type_fields:
  "wf_entity_type m b t \<Longrightarrow> set (et_data_fields t) \<subseteq> field_name ` set (data_fields (schema m))"
  unfolding wf_entity_type_def list_all_iff by blast

lemma wf_type_autoencoders:
  assumes "wf_entity_type m b t"
  shows "\<exists>aes. entity_autoencoders m (et_name t) = Some aes \<and> aes \<noteq> []
           \<and> (\<forall>ae\<in>set aes. ae_contract b ae)
           \<and> ae_output_size (aes ! 0) \<le> 8 + sum_list (map (encoder_width m) (et_data_fields t))"
proof -
  from assms have "case entity_autoencoders m (et_name t) of
           None \<Rightarrow> False
         | Some aes \<Rightarrow>
             aes \<noteq> [] \<and> list_all (ae_contract b) aes
             \<and> ae_output_size (aes ! 0)
                 \<le> 8 + sum_list (map (encoder_width m) (et_data_fields t))"
    unfolding wf_entity_type_def by blast
  then show ?thesis by (cases "entity_autoencoders m (et_name t)") (auto simp: list_all_iff)
qed

lemma wf_type_projector:
  assumes "wf_entity_type m b t"
  shows "\<exists>p. projectors m (et_name t) = Some p \<and> shape_preserving (projected_size m) p"
proof -
  from assms have "case projectors m (et_name t) of
           None \<Rightarrow> False
         | Some p \<Rightarrow> shape_preserving (projected_size m) p"
    unfolding wf_entity_type_def by blast
  then show ?thesis by (cases "projectors m (et_name t)") auto
qed

lemma wf_type_target_summarizer:
  assumes "wf_entity_type m b t" "0 < depth m" "rel \<in> set (et_relation_fields t)"
  shows "\<exists>s. relation_target_summarizers m rel = Some s \<and> summarizer_contract b s"
proof -
  from assms(1,2) have "list_all (\<lambda>rel. case relation_target_summarizers m rel of
                                None \<Rightarrow> False
                              | Some s \<Rightarrow> summarizer_contract b s)
                (et_relation_fields t)"
    unfolding wf_entity_type_def by simp
  with assms(3) have "case relation_target_summarizers m rel of
                                None \<Rightarrow> False
                              | Some s \<Rightarrow> summarizer_contract b s"
    by (simp add: list_all_iff)
  then show ?thesis by (cases "relation_target_summarizers m rel") auto
qed

lemma wf_type_source_summarizer:
  assumes "wf_entity_type m b t" "0 < depth m" "reverse_relations m"
    "rel \<in> set (et_reverse_relation_fields t)"
  shows "\<exists>s. relation_source_summarizers m rel = Some s \<and> summarizer_contract b s"
proof -
  from assms(1,2,3) have "list_all (\<lambda>rel. case relation_source_summarizers m rel of
                                None \<Rightarrow> False
                              | Some s \<Rightarrow> summarizer_contract b s)
                (et_reverse_relation_fields t)"
    unfolding wf_entity_type_def by simp
  with assms(4) have "case relation_source_summarizers m rel of
                                None \<Rightarrow> False
                              | Some s \<Rightarrow> summarizer_contract b s"
    by (simp add: list_all_iff)
  then show ?thesis by (cases "relation_source_summarizers m rel") auto
qed

lemma ae_contract_run:
  assumes "ae_contract b ae"
  shows "\<exists>eo bt. ae_run ae x = (Some eo, Some bt)
           \<and> ncols eo = ncols x \<and> length (rows eo) = length (rows x)
           \<and> ncols bt = b \<and> length (rows bt) = length (rows x) \<and> wf_tensor bt"
proof -
  from assms have "case ae_run ae x of
            (Some eo, Some bt) \<Rightarrow>
              ncols eo = ncols x \<and> length (rows eo) = length (rows x)
              \<and> ncols bt = b \<and> length (rows bt) = length (rows x) \<and> wf_tensor bt
          | _ \<Rightarrow> False"
    unfolding ae_contract_def by (rule spec)
  then show ?thesis
    by (cases "ae_run ae x") (auto split: option.splits)
qed

subsection \<open>Lines 158-178: the field encodings and the depth-0 inputs\<close>

lemma encode_field_ok:
  assumes m: "wf_model m b" and es: "wf_batch (schema m) es" and ix: "ix_ok (schema m) es ix"
    and f: "f \<in> set (data_fields (schema m))"
  shows "\<exists>t calls. encode_field m es ix f = Inr (t, calls)
           \<and> ncols t = encoder_width m (field_name f) \<and> length (rows t) = length (types es)"
proof -
  from wf_model_field[OF m f] obtain enc where
    enc: "field_encoders m (field_name f) = Some enc"
    "shape_preserving (output_size enc) (encode enc)" by blast
  from ix_ok_field[OF ix f] obtain fi where
    fi: "field_indices ix (field_name f) = Some fi" "list_all (\<lambda>i. i < length (types es)) fi"
    by blast
  from wf_batch_col[OF es f] obtain c where
    c: "cols es (field_name f) = Some c" "length (rows c) = length (types es)" by blast
  from es have n: "num_entities es = length (types es)"
    by (simp add: wf_batch_def num_entities_def)
  let ?z = "zeros (num_entities es) (output_size enc)"
  have w: "encoder_width m (field_name f) = output_size enc"
    by (simp add: encoder_width_def enc(1))
  show ?thesis
  proof (cases "length fi > 0")
    case False
    with enc(1) fi(1) n w show ?thesis
      by (simp add: encode_field_def getitem_def Let_def zeros_def)
  next
    case True
    from fi(2) c(2) have "list_all (\<lambda>i. i < length (rows c)) fi" by simp
    from index_select_ok[OF this] obtain fv where
      fv: "index_select c fi = Inr fv" "length (rows fv) = length fi" by blast
    from enc(2) have e: "ncols (encode enc fv) = output_size enc"
      "length (rows (encode enc fv)) = length (rows fv)"
      by (simp_all add: shape_preserving_def)
    have "list_all (\<lambda>i. i < length (rows ?z)) fi" using fi(2) n by (simp add: zeros_def)
    moreover have "length (rows (encode enc fv)) = length fi" using e(2) fv(2) by simp
    moreover have "ncols (encode enc fv) = ncols ?z" using e(1) by (simp add: zeros_def)
    ultimately obtain z' where z': "index_put ?z fi (encode enc fv) = Inr z'"
      "ncols z' = ncols ?z" "length (rows z') = length (rows ?z)"
      using index_put_ok by blast
    with True enc(1) fi(1) c(1) fv(1) n w show ?thesis
      by (simp add: encode_field_def getitem_def Let_def zeros_def)
  qed
qed

lemma encode_fields_ok:
  assumes m: "wf_model m b" and es: "wf_batch (schema m) es" and ix: "ix_ok (schema m) es ix"
  shows "\<exists>fe. encode_fields m es ix = Inr fe
           \<and> (\<forall>f\<in>set (data_fields (schema m)).
                \<exists>e. fe (field_name f) = Some e \<and> ncols e = encoder_width m (field_name f)
                      \<and> length (rows e) = length (types es))"
proof -
  let ?f = "\<lambda>f. ebind (encode_field m es ix f) (\<lambda>(t, calls). Inr (field_name f, t))"
  let ?P = "\<lambda>y. ncols (snd y) = encoder_width m (fst y) \<and> length (rows (snd y)) = length (types es)"
  have "\<exists>y. ?f f = Inr y \<and> ?P y" if "f \<in> set (data_fields (schema m))" for f
    using encode_field_ok[OF m es ix that] by auto
  from mapM_all[of "data_fields (schema m)" ?f ?P, OF this] obtain kvs where
    kvs: "mapM ?f (data_fields (schema m)) = Inr kvs" "list_all ?P kvs" by blast
  have k: "fst ((\<lambda>y. y) y) = field_name x" if "?f x = Inr y" for x y
    using that by (auto simp: ebind_Inr)
  have "\<exists>e. dict_of kvs (field_name f) = Some e \<and> ncols e = encoder_width m (field_name f)
                      \<and> length (rows e) = length (types es)"
    if f: "f \<in> set (data_fields (schema m))" for f
  proof -
    from mapM_dict[where g = "\<lambda>y. y" and k = field_name, OF kvs(1) k f] obtain v where
      v: "dict_of (map (\<lambda>y. y) kvs) (field_name f) = Some v" by blast
    then have v': "dict_of kvs (field_name f) = Some v" by simp
    from dict_of_SomeD[OF v'] kvs(2) have "?P (field_name f, v)"
      unfolding list_all_iff by blast
    with v' show ?thesis by simp
  qed
  with kvs(1) show ?thesis by (simp add: encode_fields_def)
qed

lemma autoencoder_input_ok:
  assumes ei: "entity_indices ix (et_name t) = Some ei" "list_all (\<lambda>i. i < n) ei"
    and fe: "\<And>fn. fn \<in> set (et_data_fields t) \<Longrightarrow>
               \<exists>e. fe fn = Some e \<and> ncols e = w fn \<and> length (rows e) = n"
  shows "\<exists>x. autoencoder_input ix fe t = Inr x
           \<and> ncols x = 8 + sum_list (map w (et_data_fields t))
           \<and> length (rows x) = length ei"
proof -
  let ?f = "\<lambda>fn. ebind (getitem fe fn) (\<lambda>e. index_select e ei)"
  have all: "\<exists>ys. mapM ?f fns = Inr ys \<and> map ncols ys = map w fns
               \<and> list_all (\<lambda>u. length (rows u) = length ei) ys"
    if "set fns \<subseteq> set (et_data_fields t)" for fns
    using that
  proof (induction fns)
    case Nil
    then show ?case by simp
  next
    case (Cons fn fns)
    then obtain ys where ys: "mapM ?f fns = Inr ys" "map ncols ys = map w fns"
      "list_all (\<lambda>u. length (rows u) = length ei) ys" by auto
    from Cons.prems fe[of fn] obtain e where
      e: "fe fn = Some e" "ncols e = w fn" "length (rows e) = n" by auto
    from ei(2) e(3) have "list_all (\<lambda>i. i < length (rows e)) ei" by simp
    from index_select_ok[OF this] obtain u where
      "index_select e ei = Inr u" "ncols u = ncols e" "length (rows u) = length ei" by blast
    with ys e show ?case by (simp add: getitem_def)
  qed
  from all[of "et_data_fields t"] obtain blocks where
    blocks: "mapM ?f (et_data_fields t) = Inr blocks"
    "map ncols blocks = map w (et_data_fields t)"
    "list_all (\<lambda>u. length (rows u) = length ei) blocks" by auto
  let ?ts = "[zeros (length ei) 8] @ blocks @ [zeros (length ei) 0]"
  from blocks(3) have "list_all (\<lambda>u. length (rows u) = length ei) ?ts"
    by (simp add: zeros_def)
  from cat1_ok[OF this] obtain x where
    x: "cat1 ?ts = Inr x" "ncols x = sum_list (map ncols ?ts)" "length (rows x) = length ei"
    by auto
  from x(2) blocks(2) have "ncols x = 8 + sum_list (map w (et_data_fields t))"
    by (simp add: zeros_def)
  with x(1,3) blocks(1) ei(1) show ?thesis
    by (simp add: autoencoder_input_def getitem_def)
qed

lemma autoencoder_inputs_ok:
  assumes m: "wf_model m b" and ix: "ix_ok (schema m) es ix"
    and fe: "\<forall>f\<in>set (data_fields (schema m)).
                \<exists>e. fe (field_name f) = Some e \<and> ncols e = encoder_width m (field_name f)
                      \<and> length (rows e) = length (types es)"
  shows "\<exists>inputs. autoencoder_inputs m ix fe = Inr inputs
           \<and> (\<forall>t\<in>set (entity_types (schema m)).
                \<exists>x aes ei. inputs (et_name t) = Some x
                  \<and> entity_autoencoders m (et_name t) = Some aes
                  \<and> entity_indices ix (et_name t) = Some ei
                  \<and> ae_output_size (aes ! 0) \<le> ncols x \<and> length (rows x) = length ei)"
proof -
  let ?f = "\<lambda>t. ebind (autoencoder_input ix fe t) (\<lambda>x. Inr (et_name t, x))"
  have one: "\<exists>x. autoencoder_input ix fe t = Inr x
           \<and> ncols x = 8 + sum_list (map (encoder_width m) (et_data_fields t))
           \<and> (\<exists>ei. entity_indices ix (et_name t) = Some ei \<and> length (rows x) = length ei)"
    if t: "t \<in> set (entity_types (schema m))" for t
  proof -
    from ix_ok_entity[OF ix t] obtain ei where
      ei: "entity_indices ix (et_name t) = Some ei" "list_all (\<lambda>i. i < length (types es)) ei"
      by blast
    have "\<exists>e. fe fn = Some e \<and> ncols e = encoder_width m fn \<and> length (rows e) = length (types es)"
      if "fn \<in> set (et_data_fields t)" for fn
      using wf_type_fields[OF wf_model_type[OF m t]] that fe by auto
    from autoencoder_input_ok[of ix t ei "length (types es)" fe "encoder_width m", OF ei this]
    show ?thesis using ei(1) by auto
  qed
  have "\<exists>y. ?f t = Inr y" if "t \<in> set (entity_types (schema m))" for t
    using one[OF that] by auto
  from mapM_total[of "entity_types (schema m)" ?f, OF this] obtain kvs where
    kvs: "mapM ?f (entity_types (schema m)) = Inr kvs" by blast
  have k: "fst ((\<lambda>y. y) y) = et_name x" if "?f x = Inr y" for x y
    using that by (auto simp: ebind_Inr)
  have "\<exists>x aes ei. dict_of kvs (et_name t) = Some x
                  \<and> entity_autoencoders m (et_name t) = Some aes
                  \<and> entity_indices ix (et_name t) = Some ei
                  \<and> ae_output_size (aes ! 0) \<le> ncols x \<and> length (rows x) = length ei"
    if t: "t \<in> set (entity_types (schema m))" for t
  proof -
    from mapM_dict[where g = "\<lambda>y. y" and k = et_name, OF kvs k t] obtain v t' y where
      v: "dict_of (map (\<lambda>y. y) kvs) (et_name t) = Some v" "t' \<in> set (entity_types (schema m))"
      "?f t' = Inr y" "y = (et_name t, v)" by blast
    from v(3,4) have n: "et_name t' = et_name t" and a: "autoencoder_input ix fe t' = Inr v"
      by (auto simp: ebind_Inr)
    from one[OF v(2)] a n obtain ei where
      x: "ncols v = 8 + sum_list (map (encoder_width m) (et_data_fields t'))"
      "entity_indices ix (et_name t) = Some ei" "length (rows v) = length ei" by auto
    from wf_type_autoencoders[OF wf_model_type[OF m v(2)]] n obtain aes where
      aes: "entity_autoencoders m (et_name t) = Some aes"
      "ae_output_size (aes ! 0) \<le> 8 + sum_list (map (encoder_width m) (et_data_fields t'))"
      by auto
    from v(1) x aes show ?thesis by simp
  qed
  with kvs show ?thesis by (simp add: autoencoder_inputs_def)
qed
subsection \<open>Lines 184-194: the autoencoders of depth 0\<close>

lemma depth0_step_ok:
  assumes m: "wf_model m b" and ix: "ix_ok (schema m) es ix"
    and t: "t \<in> set (entity_types (schema m))"
    and inp: "\<exists>x aes ei. inputs (et_name t) = Some x
                  \<and> entity_autoencoders m (et_name t) = Some aes
                  \<and> entity_indices ix (et_name t) = Some ei
                  \<and> ae_output_size (aes ! 0) \<le> ncols x \<and> length (rows x) = length ei"
    and s: "state_ok m es ix b s"
  shows "\<exists>s'. depth0_step m ix inputs t s = Inr s' \<and> state_ok m es ix b s'
           \<and> fst s' (et_name t) \<noteq> None \<and> (\<forall>n. fst s n \<noteq> None \<longrightarrow> fst s' n \<noteq> None)"
proof -
  obtain outs bns where sp: "s = (outs, bns)" by (cases s)
  from inp obtain x aes ei where
    x: "inputs (et_name t) = Some x" "entity_autoencoders m (et_name t) = Some aes"
    "entity_indices ix (et_name t) = Some ei" "ae_output_size (aes ! 0) \<le> ncols x"
    "length (rows x) = length ei" by blast
  from wf_type_autoencoders[OF wf_model_type[OF m t]] x(2) have
    aes: "aes \<noteq> []" "\<forall>ae\<in>set aes. ae_contract b ae" by auto
  then have "ae_contract b (aes ! 0)" by (cases aes) simp_all
  from ae_contract_run[OF this, of x] obtain eo bt where
    run: "ae_run (aes ! 0) x = (Some eo, Some bt)" "ncols eo = ncols x"
    "length (rows eo) = length (rows x)" "ncols bt = b" "length (rows bt) = length (rows x)"
    "wf_tensor bt" by blast
  from ix_ok_entity[OF ix t] x(3) have lt: "list_all (\<lambda>i. i < length (types es)) ei" by simp
  from s have bok: "ncols bns = b" "length (rows bns) = length (types es)" "wf_tensor bns"
    and ook: "\<And>n out. outs n = Some out \<Longrightarrow> output_ok m ix n out"
    by (simp_all add: state_ok_def bottlenecks_ok_def sp)
  have "list_all (\<lambda>i. i < length (rows bns)) ei" using lt bok(2) by simp
  moreover have "length (rows bt) = length ei" using run(5) x(5) by simp
  moreover have "ncols bt = ncols bns" using run(4) bok(1) by simp
  ultimately obtain bns' where
    put: "index_put bns ei bt = Inr bns'" "ncols bns' = ncols bns"
    "length (rows bns') = length (rows bns)" "wf_tensor bns \<and> wf_tensor bt \<longrightarrow> wf_tensor bns'"
    using index_put_ok by blast
  let ?s' = "(outs(et_name t \<mapsto> eo), bns')"
  from aes(1) x(1,2,3) run(1) put(1) have e: "depth0_step m ix inputs t s = Inr ?s'"
    by (simp add: depth0_step_def sp getitem_def Let_def)
  have "output_ok m ix (et_name t) eo"
    using x(2,3,4,5) run(2,3) by (simp add: output_ok_def)
  with ook have "\<forall>n out. (outs(et_name t \<mapsto> eo)) n = Some out \<longrightarrow> output_ok m ix n out"
    by auto
  with put bok run(6) have "state_ok m es ix b ?s'"
    by (simp add: state_ok_def bottlenecks_ok_def)
  with e show ?thesis by (simp add: sp)
qed

lemma depth0_loop_ok:
  assumes m: "wf_model m b" and ix: "ix_ok (schema m) es ix"
    and inp: "\<forall>t\<in>set (entity_types (schema m)).
                \<exists>x aes ei. inputs (et_name t) = Some x
                  \<and> entity_autoencoders m (et_name t) = Some aes
                  \<and> entity_indices ix (et_name t) = Some ei
                  \<and> ae_output_size (aes ! 0) \<le> ncols x \<and> length (rows x) = length ei"
    and n: "num_entities es = length (types es)"
  shows "\<exists>s. foldM (depth0_step m ix inputs) (entity_types (schema m))
                (Map.empty, zeros (num_entities es) b) = Inr s
           \<and> state_ok m es ix b s
           \<and> (\<forall>t\<in>set (entity_types (schema m)). fst s (et_name t) \<noteq> None)"
proof -
  have init: "state_ok m es ix b (Map.empty, zeros (num_entities es) b)"
    using n by (simp add: state_ok_def bottlenecks_ok_def zeros_def wf_tensor_def list_all_iff)
  have step: "\<exists>s'. depth0_step m ix inputs t s = Inr s' \<and> state_ok m es ix b s'
           \<and> fst s' (et_name t) \<noteq> None \<and> (\<forall>n. fst s n \<noteq> None \<longrightarrow> fst s' n \<noteq> None)"
    if "t \<in> set (entity_types (schema m))" "state_ok m es ix b s" for t s
    using that inp depth0_step_ok[OF m ix, of t inputs s] by blast
  from foldM_inv_dom[where I = "state_ok m es ix b" and D = "\<lambda>s k. fst s k \<noteq> None"
        and k = et_name and f = "depth0_step m ix inputs" and xs = "entity_types (schema m)",
        OF init step]
  show ?thesis by blast
qed

subsection \<open>Lines 203-225: the blocks of the relations\<close>

lemma summarizer_contract_length:
  assumes "summarizer_contract b s" "rs \<noteq> []" "list_all (\<lambda>r. length r = b) rs"
  shows "length (s rs) = b"
proof -
  from assms(1) have "rs = [] \<or> \<not> list_all (\<lambda>r. length r = b) rs \<or> length (s rs) = b"
    unfolding summarizer_contract_def by (rule spec)
  with assms(2,3) show ?thesis by simp
qed

lemma relation_step_ok:
  assumes adj: "case adjacencies rel of None \<Rightarrow> True
                | Some M \<Rightarrow> length M = length (types es)
                             \<and> list_all (\<lambda>r. length r = length (types es)) M"
    and prev: "bottlenecks_ok es b prev" and sm: "summarizer_contract b summarize"
    and i: "i < length (rows reps)" "index < length (types es)"
    and reps: "ncols reps = b" "wf_tensor reps"
  shows "\<exists>reps'. relation_step es adjacencies prev summarize rel (i, index) reps = Inr reps'
           \<and> ncols reps' = b \<and> length (rows reps') = length (rows reps) \<and> wf_tensor reps'"
proof (cases "adjacencies rel")
  case None
  with reps show ?thesis by (simp add: relation_step_def)
next
  case (Some M)
  with adj have M: "length M = length (types es)" "list_all (\<lambda>r. length r = length (types es)) M"
    by simp_all
  with i(2) have "length (M ! index) = length (types es)" by (simp add: list_all_iff)
  from masked_select_below[OF this] obtain related where
    rel: "masked_select [0..<length (types es)] (M ! index) = Inr related"
    "list_all (\<lambda>j. j < length (types es)) related" by blast
  with i(2) M(1) have ri: "related_indices es M index = Inr related"
    by (simp add: related_indices_def index_space_def)
  show ?thesis
  proof (cases "related = []")
    case True
    with ri Some reps show ?thesis by (simp add: relation_step_def)
  next
    case False
    from prev have p: "ncols prev = b" "length (rows prev) = length (types es)" "wf_tensor prev"
      by (simp_all add: bottlenecks_ok_def)
    from rel(2) p(2) have "list_all (\<lambda>j. j < length (rows prev)) related" by simp
    from index_select_ok[OF this] obtain obns where
      o: "index_select prev related = Inr obns" "rows obns = map (\<lambda>j. rows prev ! j) related"
      by blast
    have "list_all (\<lambda>r. length r = b) (rows obns)"
      using p rel(2) unfolding o(2) wf_tensor_def list_all_iff by auto
    moreover from False o(2) have "rows obns \<noteq> []" by simp
    ultimately have l: "length (summarize (rows obns)) = b"
      using summarizer_contract_length[OF sm] by blast
    let ?r = "reps\<lparr>rows := (rows reps)[i := summarize (rows obns)]\<rparr>"
    from l i(1) reps(1) have put: "row_put reps i (summarize (rows obns)) = Inr ?r"
      by (simp add: row_put_def)
    have "set ((rows reps)[i := summarize (rows obns)])
            \<subseteq> insert (summarize (rows obns)) (set (rows reps))"
      by (rule set_update_subset_insert)
    with reps l have "wf_tensor ?r" by (auto simp: wf_tensor_def list_all_iff)
    with ri Some False o(1) put reps(1) show ?thesis by (simp add: relation_step_def)
  qed
qed

lemma relation_reps_ok:
  assumes adj: "case adjacencies rel of None \<Rightarrow> True
                | Some M \<Rightarrow> length M = length (types es)
                             \<and> list_all (\<lambda>r. length r = length (types es)) M"
    and prev: "bottlenecks_ok es b prev" and sm: "summarizer_contract b summarize"
    and ei: "list_all (\<lambda>i. i < length (types es)) ei"
  shows "\<exists>block. relation_reps es adjacencies b prev summarize rel ei = Inr block
           \<and> ncols block = b \<and> length (rows block) = length ei \<and> wf_tensor block"
proof -
  let ?I = "\<lambda>reps. ncols reps = b \<and> length (rows reps) = length ei \<and> wf_tensor reps"
  have init: "?I (zeros (length ei) b)"
    by (simp add: zeros_def wf_tensor_def list_all_iff)
  have "\<exists>block. foldM (relation_step es adjacencies prev summarize rel) (enumerate 0 ei)
                   (zeros (length ei) b) = Inr block \<and> ?I block"
  proof (rule foldM_inv[where I = ?I, OF init])
    fix x reps
    assume x: "x \<in> set (enumerate 0 ei)" and I: "?I reps"
    obtain i index where xi: "x = (i, index)" by (cases x)
    with x have "i < length ei" "index = ei ! i" by (auto simp: in_set_enumerate_eq)
    with ei have "i < length (rows reps)" "index < length (types es)"
      using I by (auto simp: list_all_iff)
    from relation_step_ok[where adjacencies = adjacencies and rel = rel, OF adj prev sm this] I
    show "\<exists>s'. relation_step es adjacencies prev summarize rel x reps = Inr s' \<and> ?I s'"
      by (auto simp: xi)
  qed
  then show ?thesis by (simp add: relation_reps_step)
qed

lemma wf_adjacency_rel:
  assumes "wf_adjacency m es adjacencies" "t \<in> set (entity_types (schema m))"
    "rel \<in> set (relations_of m t)"
  shows "case adjacencies rel of None \<Rightarrow> True
         | Some M \<Rightarrow> length M = length (types es)
                      \<and> list_all (\<lambda>r. length r = length (types es)) M"
  using assms unfolding wf_adjacency_def list_all_iff by blast

lemma other_reps_ok:
  assumes m: "wf_model m b" and d: "0 < depth m"
    and adj: "wf_adjacency m es adjacencies"
    and t: "t \<in> set (entity_types (schema m))"
    and prev: "bottlenecks_ok es b prev"
    and ei: "list_all (\<lambda>i. i < length (types es)) ei"
  shows "\<exists>reps. other_reps m es adjacencies b prev t ei = Inr reps
           \<and> list_all (\<lambda>u. ncols u = b \<and> length (rows u) = length ei \<and> wf_tensor u) reps"
proof -
  let ?P = "\<lambda>u. ncols u = b \<and> length (rows u) = length ei \<and> wf_tensor u"
  let ?out = "\<lambda>rel_name. ebind (getitem (relation_target_summarizers m) rel_name) (\<lambda>summarize.
                    relation_reps es adjacencies b prev summarize rel_name ei)"
  let ?inc = "\<lambda>rel_name. ebind (getitem (relation_source_summarizers m) rel_name) (\<lambda>summarize.
                    relation_reps es adjacencies b prev summarize rel_name ei)"
  note w = wf_model_type[OF m t]
  have "\<exists>y. ?out rel = Inr y \<and> ?P y" if r: "rel \<in> set (et_relation_fields t)" for rel
  proof -
    from wf_type_target_summarizer[OF w d r] obtain s where
      s: "relation_target_summarizers m rel = Some s" "summarizer_contract b s" by blast
    from r have "rel \<in> set (relations_of m t)" by (simp add: relations_of_def)
    from relation_reps_ok[where adjacencies = adjacencies and rel = rel,
          OF wf_adjacency_rel[OF adj t this] prev s(2) ei] s(1)
    show ?thesis by (simp add: getitem_def)
  qed
  from mapM_all[of "et_relation_fields t" ?out ?P, OF this] obtain outgoing where
    out: "mapM ?out (et_relation_fields t) = Inr outgoing" "list_all ?P outgoing" by blast
  show ?thesis
  proof (cases "reverse_relations m")
    case False
    with out show ?thesis by (simp add: other_reps_def)
  next
    case True
    have "\<exists>y. ?inc rel = Inr y \<and> ?P y" if r: "rel \<in> set (et_reverse_relation_fields t)" for rel
    proof -
      from wf_type_source_summarizer[OF w d True r] obtain s where
        s: "relation_source_summarizers m rel = Some s" "summarizer_contract b s" by blast
      from r True have "rel \<in> set (relations_of m t)" by (simp add: relations_of_def)
      from relation_reps_ok[where adjacencies = adjacencies and rel = rel,
          OF wf_adjacency_rel[OF adj t this] prev s(2) ei] s(1)
      show ?thesis by (simp add: getitem_def)
    qed
    from mapM_all[of "et_reverse_relation_fields t" ?inc ?P, OF this] obtain incoming where
      inc: "mapM ?inc (et_reverse_relation_fields t) = Inr incoming" "list_all ?P incoming"
      by blast
    with out True show ?thesis by (simp add: other_reps_def)
  qed
qed
subsection \<open>Lines 197-239: the autoencoders of the depths above 0\<close>

lemma output_okD:
  assumes "output_ok m ix n out"
  shows "\<exists>aes ei. entity_autoencoders m n = Some aes \<and> entity_indices ix n = Some ei
           \<and> ae_output_size (aes ! 0) \<le> ncols out \<and> length (rows out) = length ei"
  using assms unfolding output_ok_def
  by (cases "entity_autoencoders m n"; cases "entity_indices ix n") simp_all

lemma depth_input_ok:
  assumes m: "wf_model m b" and d: "0 < depth m"
    and adj: "wf_adjacency m es adjacencies"
    and ix: "ix_ok (schema m) es ix"
    and t: "t \<in> set (entity_types (schema m))"
    and prev: "bottlenecks_ok es b prev"
    and out: "outs (et_name t) = Some out" "output_ok m ix (et_name t) out"
  shows "\<exists>inp aes ei. depth_input m es adjacencies ix b prev t outs = Inr inp
           \<and> entity_autoencoders m (et_name t) = Some aes
           \<and> entity_indices ix (et_name t) = Some ei
           \<and> ae_output_size (aes ! 0) \<le> ncols inp \<and> length (rows inp) = length ei"
proof -
  from output_okD[OF out(2)] obtain aes ei where
    o: "entity_autoencoders m (et_name t) = Some aes" "entity_indices ix (et_name t) = Some ei"
    "ae_output_size (aes ! 0) \<le> ncols out" "length (rows out) = length ei" by blast
  from wf_type_autoencoders[OF wf_model_type[OF m t]] o(1) have aes: "aes \<noteq> []" by auto
  let ?w = "ae_output_size (aes ! 0)"
  let ?out' = "\<lparr>ncols = ?w, rows = map (take ?w) (rows out)\<rparr>"
  from o(3) have nar: "narrow out ?w = Inr ?out'" by (simp add: narrow_def)
  from ix_ok_entity[OF ix t] o(2) have lt: "list_all (\<lambda>i. i < length (types es)) ei" by simp
  from other_reps_ok[OF m d adj t prev lt] obtain reps where
    reps: "other_reps m es adjacencies b prev t ei = Inr reps"
    "list_all (\<lambda>u. ncols u = b \<and> length (rows u) = length ei \<and> wf_tensor u) reps" by blast
  have "\<exists>other. (if length reps > 0 then cat1 reps else Inr (zeros (length (rows ?out')) 0))
                  = Inr other \<and> length (rows other) = length ei"
  proof (cases "reps = []")
    case True
    with o(4) show ?thesis by (simp add: zeros_def)
  next
    case False
    from reps(2) have "list_all (\<lambda>u. length (rows u) = length ei) reps"
      by (simp add: list_all_iff)
    from cat1_ok[OF this False] False show ?thesis by auto
  qed
  then obtain other where
    other: "(if length reps > 0 then cat1 reps else Inr (zeros (length (rows ?out')) 0))
              = Inr other" "length (rows other) = length ei" by blast
  have "list_all (\<lambda>u. length (rows u) = length ei) [?out', other]"
    using o(4) other(2) by simp
  from cat1_ok[OF this] obtain inp where
    inp: "cat1 [?out', other] = Inr inp" "ncols inp = sum_list (map ncols [?out', other])"
    "length (rows inp) = length ei" by auto
  from inp(2) have "?w \<le> ncols inp" by simp
  moreover from out(1) o(1,2) aes nar reps(1) other(1) inp(1)
  have "depth_input m es adjacencies ix b prev t outs = Inr inp"
    by (simp add: depth_input_def getitem_def)
  ultimately show ?thesis using o(1,2) inp(3) by blast
qed

lemma depth_step_ok:
  assumes m: "wf_model m b" and d: "0 < depth m"
    and adj: "wf_adjacency m es adjacencies"
    and ix: "ix_ok (schema m) es ix"
    and t: "t \<in> set (entity_types (schema m))"
    and prev: "bottlenecks_ok es b prev"
    and s: "state_ok m es ix b s" "fst s (et_name t) \<noteq> None"
  shows "\<exists>s'. depth_step m es adjacencies ix b prev k t s = Inr s' \<and> state_ok m es ix b s'
           \<and> (\<forall>n. fst s n \<noteq> None \<longrightarrow> fst s' n \<noteq> None)"
proof -
  obtain outs bns where sp: "s = (outs, bns)" by (cases s)
  from s(2) obtain out where out: "outs (et_name t) = Some out" by (auto simp: sp)
  from s(1) have bok: "ncols bns = b" "length (rows bns) = length (types es)" "wf_tensor bns"
    and ook: "\<And>n out. outs n = Some out \<Longrightarrow> output_ok m ix n out"
    by (simp_all add: state_ok_def bottlenecks_ok_def sp)
  from depth_input_ok[where outs = outs, OF m d adj ix t prev out ook[OF out]] obtain inp aes ei where
    inp: "depth_input m es adjacencies ix b prev t outs = Inr inp"
    "entity_autoencoders m (et_name t) = Some aes" "entity_indices ix (et_name t) = Some ei"
    "ae_output_size (aes ! 0) \<le> ncols inp" "length (rows inp) = length ei" by blast
  from wf_type_autoencoders[OF wf_model_type[OF m t]] inp(2) have
    aes: "aes \<noteq> []" "\<forall>ae\<in>set aes. ae_contract b ae" by auto
  let ?ae = "if k > length aes - 1 then last aes else aes ! k"
  have "?ae \<in> set aes"
  proof (cases "k > length aes - 1")
    case True
    with aes(1) show ?thesis by simp
  next
    case False
    with aes(1) have "k < length aes" by (cases aes) simp_all
    with False show ?thesis by simp
  qed
  with aes(2) have "ae_contract b ?ae" by blast
  from ae_contract_run[OF this, of inp] obtain eo bt where
    run: "ae_run ?ae inp = (Some eo, Some bt)" "ncols eo = ncols inp"
    "length (rows eo) = length (rows inp)" "ncols bt = b" "length (rows bt) = length (rows inp)"
    "wf_tensor bt" by blast
  from ix_ok_entity[OF ix t] inp(3) have lt: "list_all (\<lambda>i. i < length (types es)) ei" by simp
  have "list_all (\<lambda>i. i < length (rows bns)) ei" using lt bok(2) by simp
  moreover have "length (rows bt) = length ei" using run(5) inp(5) by simp
  moreover have "ncols bt = ncols bns" using run(4) bok(1) by simp
  ultimately obtain bns' where
    put: "index_put bns ei bt = Inr bns'" "ncols bns' = ncols bns"
    "length (rows bns') = length (rows bns)" "wf_tensor bns \<and> wf_tensor bt \<longrightarrow> wf_tensor bns'"
    using index_put_ok by blast
  let ?bns = "if ncols eo \<noteq> 0 then bns' else bns"
  let ?s' = "(outs(et_name t \<mapsto> eo), ?bns)"
  from inp(1,2,3) run(1) put(1) have e: "depth_step m es adjacencies ix b prev k t s = Inr ?s'"
    by (simp add: depth_step_def sp getitem_def Let_def)
  have "output_ok m ix (et_name t) eo"
    using inp(2,3,4,5) run(2,3) by (simp add: output_ok_def)
  with ook have "\<forall>n out. (outs(et_name t \<mapsto> eo)) n = Some out \<longrightarrow> output_ok m ix n out"
    by auto
  moreover have "bottlenecks_ok es b ?bns"
    using put bok run(6) by (simp add: bottlenecks_ok_def)
  ultimately have "state_ok m es ix b ?s'" by (simp add: state_ok_def)
  with e show ?thesis by (simp add: sp)
qed

lemma depth_loop_ok:
  assumes m: "wf_model m b" and adj: "wf_adjacency m es adjacencies"
    and ix: "ix_ok (schema m) es ix"
    and s: "state_ok m es ix b s" "\<forall>t\<in>set (entity_types (schema m)). fst s (et_name t) \<noteq> None"
  shows "\<exists>s'. depth_loop m es adjacencies ix b s = Inr s' \<and> state_ok m es ix b s'"
proof -
  let ?I = "\<lambda>s. state_ok m es ix b s \<and> (\<forall>t\<in>set (entity_types (schema m)). fst s (et_name t) \<noteq> None)"
  from s(1) have prev: "bottlenecks_ok es b (snd s)" by (simp add: state_ok_def)
  have inner: "\<exists>s''. foldM (depth_step m es adjacencies ix b (snd s) k)
                        (entity_types (schema m)) s' = Inr s'' \<and> ?I s''"
    if k: "k \<in> set [1..<depth m + 1]" and I: "?I s'" for k s'
  proof -
    from k have d: "0 < depth m" by simp
    have step: "\<exists>u'. depth_step m es adjacencies ix b (snd s) k t u = Inr u' \<and> ?I u'"
      if "t \<in> set (entity_types (schema m))" "?I u" for t u
    proof -
      from that have "fst u (et_name t) \<noteq> None" "state_ok m es ix b u" by simp_all
      from depth_step_ok[OF m d adj ix that(1) prev this(2,1), of k] that(2)
      show ?thesis by blast
    qed
    from foldM_inv[where I = ?I and f = "depth_step m es adjacencies ix b (snd s) k"
        and xs = "entity_types (schema m)", OF I step]
    show ?thesis by blast
  qed
  from s have I0: "?I s" by simp
  from foldM_inv[where I = ?I and xs = "[1..<depth m + 1]"
      and f = "\<lambda>d. foldM (depth_step m es adjacencies ix b (snd s) d) (entity_types (schema m))",
      OF I0 inner]
  show ?thesis by (auto simp: depth_loop_def Let_def)
qed

subsection \<open>Lines 243-256: projection and decoding\<close>

lemma project_ok:
  assumes m: "wf_model m b" and ix: "ix_ok (schema m) es ix"
    and n: "num_entities es = length (types es)"
    and outs: "\<And>n out. outs n = Some out \<Longrightarrow> output_ok m ix n out"
  shows "\<exists>resized. project m es ix outs = Inr resized"
proof -
  let ?I = "\<lambda>r. ncols r = projected_size m \<and> length (rows r) = length (types es)"
  let ?f = "\<lambda>t resized.
              case outs (et_name t) of
                None \<Rightarrow> Inr resized
              | Some ae_output \<Rightarrow>
                  ebind (getitem (entity_indices ix) (et_name t)) (\<lambda>indices.
                  ebind (getitem (projectors m) (et_name t)) (\<lambda>p.
                  index_put resized indices (p ae_output)))"
  have init: "?I (zeros (num_entities es) (projected_size m))" using n by (simp add: zeros_def)
  have step: "\<exists>r'. ?f t r = Inr r' \<and> ?I r'" if t: "t \<in> set (entity_types (schema m))" and I: "?I r"
    for t r
  proof (cases "outs (et_name t)")
    case None
    with I show ?thesis by simp
  next
    case (Some out)
    from output_okD[OF outs[OF Some]] obtain ei where
      ei: "entity_indices ix (et_name t) = Some ei" "length (rows out) = length ei" by blast
    from ix_ok_entity[OF ix t] ei(1) have lt: "list_all (\<lambda>i. i < length (types es)) ei" by simp
    from wf_type_projector[OF wf_model_type[OF m t]] obtain p where
      p: "projectors m (et_name t) = Some p" "shape_preserving (projected_size m) p" by blast
    from p(2) have sh: "ncols (p out) = projected_size m" "length (rows (p out)) = length (rows out)"
      by (simp_all add: shape_preserving_def)
    have "list_all (\<lambda>i. i < length (rows r)) ei" using lt I by simp
    moreover have "length (rows (p out)) = length ei" using sh(2) ei(2) by simp
    moreover have "ncols (p out) = ncols r" using sh(1) I by simp
    ultimately obtain r' where "index_put r ei (p out) = Inr r'" "ncols r' = ncols r"
      "length (rows r') = length (rows r)"
      using index_put_ok by blast
    with Some ei(1) p(1) I show ?thesis by (simp add: getitem_def)
  qed
  from foldM_inv[where I = ?I and f = ?f and xs = "entity_types (schema m)", OF init step]
  obtain r where "foldM ?f (entity_types (schema m)) (zeros (num_entities es) (projected_size m))
      = Inr r" by blast
  then have "project m es ix outs = Inr r" unfolding project_def .
  then show ?thesis by blast
qed

lemma decode_ok:
  assumes m: "wf_model m b"
  shows "\<exists>recon. decode m es resized = Inr recon"
proof -
  let ?f = "\<lambda>f. ebind (getitem (field_decoders m) (field_name f)) (\<lambda>dec.
                       Inr (field_name f, dec resized))"
  have "\<exists>y. ?f f = Inr y" if "f \<in> set (data_fields (schema m))" for f
    using wf_model_field[OF m that] by (auto simp: getitem_def)
  from mapM_total[of "data_fields (schema m)" ?f, OF this] show ?thesis
    by (auto simp: decode_def)
qed

subsection \<open>The whole of \<^verbatim>\<open>forward\<close>\<close>

lemma forward_ok:
  assumes m: "wf_model m b" and es: "wf_batch (schema m) es"
    and adj: "wf_adjacency m es adjacencies"
  shows "\<exists>res. forward m es adjacencies = Inr res"
proof -
  from es have n: "num_entities es = length (types es)"
    by (simp add: wf_batch_def num_entities_def)
  from m have b: "bottleneck_size m = Some b" by (simp add: wf_model_def)
  have "set (et_data_fields t) \<subseteq> field_name ` set (data_fields (schema m))"
    if "t \<in> set (entity_types (schema m))" for t
    using wf_type_fields[OF wf_model_type[OF m that]] .
  from compute_indexing_ok[OF es this] obtain ix where
    ix: "compute_indexing (schema m) es = Inr ix" "ix_ok (schema m) es ix" by blast
  from encode_fields_ok[OF m es ix(2)] obtain fe where
    fe: "encode_fields m es ix = Inr fe"
    "\<forall>f\<in>set (data_fields (schema m)).
                \<exists>e. fe (field_name f) = Some e \<and> ncols e = encoder_width m (field_name f)
                      \<and> length (rows e) = length (types es)" by blast
  from autoencoder_inputs_ok[OF m ix(2) fe(2)] obtain inputs where
    inputs: "autoencoder_inputs m ix fe = Inr inputs"
    "\<forall>t\<in>set (entity_types (schema m)).
                \<exists>x aes ei. inputs (et_name t) = Some x
                  \<and> entity_autoencoders m (et_name t) = Some aes
                  \<and> entity_indices ix (et_name t) = Some ei
                  \<and> ae_output_size (aes ! 0) \<le> ncols x \<and> length (rows x) = length ei" by blast
  from depth0_loop_ok[OF m ix(2) inputs(2) n] obtain s0 where
    s0: "foldM (depth0_step m ix inputs) (entity_types (schema m))
                (Map.empty, zeros (num_entities es) b) = Inr s0"
    "state_ok m es ix b s0" "\<forall>t\<in>set (entity_types (schema m)). fst s0 (et_name t) \<noteq> None"
    by blast
  from depth_loop_ok[OF m adj ix(2) s0(2,3)] obtain s where
    s: "depth_loop m es adjacencies ix b s0 = Inr s" "state_ok m es ix b s" by blast
  from s(2) have "\<And>n out. fst s n = Some out \<Longrightarrow> output_ok m ix n out"
    by (simp add: state_ok_def)
  from project_ok[OF m ix(2) n this] obtain resized where
    r: "project m es ix (fst s) = Inr resized" by blast
  from decode_ok[OF m, of es resized] obtain recon where
    dec: "decode m es resized = Inr recon" by blast
  have "forward m es adjacencies = Inr (recon, snd s, [])"
    unfolding forward_def ix(1) ebind_simps fe(1) inputs(1) b option.case s0(1) s(1) r dec ..
  then show ?thesis by blast
qed
subsection \<open>The block of a relation without an edge\<close>

lemma relation_reps_no_edges:
  assumes ok: "relation_reps es adjacencies b prev summarize rel ei = Inr block"
    and ne: "no_edges es adjacencies rel"
  shows "block = zeros (length ei) b"
proof -
  let ?I = "\<lambda>reps. reps = zeros (length ei) b"
  from ok have f: "foldM (relation_step es adjacencies prev summarize rel) (enumerate 0 ei)
      (zeros (length ei) b) = Inr block"
    by (simp add: relation_reps_step)
  have step: "?I s'"
    if "x \<in> set (enumerate 0 ei)" "?I s"
      "relation_step es adjacencies prev summarize rel x s = Inr s'" for x s s'
  proof (cases "adjacencies rel")
    case None
    with that(2,3) show ?thesis by (simp add: relation_step_def split: prod.splits)
  next
    case (Some M)
    obtain i index where xi: "x = (i, index)" by (cases x)
    from ne Some have M: "M = replicate (length (types es)) (replicate (length (types es)) False)"
      by (simp add: no_edges_def)
    from that(3) Some obtain related where
      r: "related_indices es M index = Inr related"
      and s': "(if length related > 0
                then ebind (index_select prev related) (\<lambda>obns. row_put s i (summarize (rows obns)))
                else Inr s) = Inr s'"
      by (auto simp: relation_step_def xi ebind_Inr)
    from r have lt: "index < length (types es)"
      by (simp add: related_indices_def M split: if_splits)
    from related_indices_Inr[OF r] lt have "related = []"
      by (simp add: M index_space_def)
    with s' that(2) show ?thesis by simp
  qed
  show ?thesis
  proof (rule foldM_post[where I = ?I, OF f])
    show "zeros (length ei) b = zeros (length ei) b" ..
  next
    fix x s s'
    assume "x \<in> set (enumerate 0 ei)" "s = zeros (length ei) b"
      "relation_step es adjacencies prev summarize rel x s = Inr s'"
    then show "s' = zeros (length ei) b" by (rule step)
  qed
qed

lemma relation_reps_wf:
  assumes "relation_reps es adjacencies b prev summarize rel ei = Inr block"
  shows "wf_tensor block"
proof -
  from assms have f: "foldM (relation_step es adjacencies prev summarize rel) (enumerate 0 ei)
      (zeros (length ei) b) = Inr block"
    by (simp add: relation_reps_step)
  have init: "wf_tensor (zeros (length ei) b)"
    by (simp add: zeros_def wf_tensor_def list_all_iff)
  have step: "wf_tensor s'"
    if "x \<in> set (enumerate 0 ei)" "wf_tensor s"
      "relation_step es adjacencies prev summarize rel x s = Inr s'" for x s s'
  proof (cases "adjacencies rel")
    case None
    with that(2,3) show ?thesis by (simp add: relation_step_def split: prod.splits)
  next
    case (Some M)
    obtain i index where xi: "x = (i, index)" by (cases x)
    from that(3) Some obtain related where
      s': "(if length related > 0
                then ebind (index_select prev related) (\<lambda>obns. row_put s i (summarize (rows obns)))
                else Inr s) = Inr s'"
      by (auto simp: relation_step_def xi ebind_Inr)
    show ?thesis
    proof (cases "related = []")
      case True
      with s' that(2) show ?thesis by simp
    next
      case False
      with s' obtain r where p: "row_put s i r = Inr s'" by (auto simp: ebind_Inr)
      then have "length r = ncols s" "s' = s\<lparr>rows := (rows s)[i := r]\<rparr>"
        by (auto simp: row_put_def split: if_splits)
      moreover have "set ((rows s)[i := r]) \<subseteq> insert r (set (rows s))"
        by (rule set_update_subset_insert)
      ultimately show ?thesis using that(2) by (auto simp: wf_tensor_def list_all_iff)
    qed
  qed
  show ?thesis
  proof (rule foldM_post[where I = wf_tensor, OF f init])
    fix x s s'
    assume "x \<in> set (enumerate 0 ei)" "wf_tensor s"
      "relation_step es adjacencies prev summarize rel x s = Inr s'"
    then show "wf_tensor s'" by (rule step)
  qed
qed

lemma other_reps_nth:
  assumes "other_reps m es adjacencies b prev t ei = Inr reps"
  shows "length reps = length (relations_of m t)
     \<and> (\<forall>k<length reps. \<exists>s. relation_reps es adjacencies b prev s (relations_of m t ! k) ei
                               = Inr (reps ! k))"
proof -
  let ?out = "\<lambda>rel_name. ebind (getitem (relation_target_summarizers m) rel_name) (\<lambda>summarize.
                    relation_reps es adjacencies b prev summarize rel_name ei)"
  let ?inc = "\<lambda>rel_name. ebind (getitem (relation_source_summarizers m) rel_name) (\<lambda>summarize.
                    relation_reps es adjacencies b prev summarize rel_name ei)"
  from assms obtain outgoing where
    out: "mapM ?out (et_relation_fields t) = Inr outgoing"
    and rest: "(if reverse_relations m
                then ebind (mapM ?inc (et_reverse_relation_fields t)) (\<lambda>incoming.
                       Inr (outgoing @ incoming))
                else Inr outgoing) = Inr reps"
    by (auto simp: other_reps_def ebind_Inr)
  from mapM_nth[OF out] have
    o: "length outgoing = length (et_relation_fields t)"
    "\<And>k. k < length (et_relation_fields t) \<Longrightarrow>
       \<exists>s. relation_reps es adjacencies b prev s (et_relation_fields t ! k) ei = Inr (outgoing ! k)"
    by (auto simp: ebind_Inr)
  show ?thesis
  proof (cases "reverse_relations m")
    case False
    with rest o show ?thesis by (simp add: relations_of_def)
  next
    case True
    with rest obtain incoming where
      inc: "mapM ?inc (et_reverse_relation_fields t) = Inr incoming"
      and reps: "reps = outgoing @ incoming"
      by (auto simp: ebind_Inr)
    from mapM_nth[OF inc] have
      i: "length incoming = length (et_reverse_relation_fields t)"
      "\<And>k. k < length (et_reverse_relation_fields t) \<Longrightarrow>
         \<exists>s. relation_reps es adjacencies b prev s (et_reverse_relation_fields t ! k) ei
               = Inr (incoming ! k)"
      by (auto simp: ebind_Inr)
    show ?thesis
    proof (intro conjI allI impI)
      show "length reps = length (relations_of m t)"
        using o(1) i(1) reps True by (simp add: relations_of_def)
      fix k
      assume k: "k < length reps"
      show "\<exists>s. relation_reps es adjacencies b prev s (relations_of m t ! k) ei = Inr (reps ! k)"
      proof (cases "k < length (et_relation_fields t)")
        case True
        with o reps show ?thesis
          by (simp add: relations_of_def nth_append)
      next
        case False
        with k reps o(1) i(1) have "k - length (et_relation_fields t) < length (et_reverse_relation_fields t)"
          by simp
        from i(2)[OF this] False o(1) reps \<open>reverse_relations m\<close> show ?thesis
          by (simp add: relations_of_def nth_append)
      qed
    qed
  qed
qed

lemma depth_input_zero_block:
  assumes inp: "depth_input m es adjacencies ix b prev t outs = Inr inp"
    and out: "outs (et_name t) = Some out" "wf_tensor out"
    and aes: "entity_autoencoders m (et_name t) = Some aes"
    and k: "k < length (relations_of m t)"
    and ne: "no_edges es adjacencies (relations_of m t ! k)"
  shows "columns inp (ae_output_size (aes ! 0) + k * b) b = zeros (length (rows inp)) b"
proof -
  let ?w = "ae_output_size (aes ! 0)"
  let ?out' = "\<lparr>ncols = ?w, rows = map (take ?w) (rows out)\<rparr>"
  have g1: "getitem outs (et_name t) = Inr out" by (simp add: getitem_def out(1))
  have g2: "getitem (entity_autoencoders m) (et_name t) = Inr aes" by (simp add: getitem_def aes)
  from inp have i1: "ebind (if aes = [] then Inl IndexError else Inr (aes ! 0)) (\<lambda>ae0.
     ebind (narrow out (ae_output_size ae0)) (\<lambda>out'.
     ebind (getitem (entity_indices ix) (et_name t)) (\<lambda>ei.
     ebind (other_reps m es adjacencies b prev t ei) (\<lambda>reps.
     ebind (if length reps > 0 then cat1 reps
            else Inr (zeros (length (rows out')) 0)) (\<lambda>other.
     cat1 [out', other]))))) = Inr inp"
    unfolding depth_input_def g1 g2 ebind_simps .
  then have nonempty: "aes \<noteq> []" by (cases "aes = []") simp_all
  with i1 have i2: "ebind (narrow out ?w) (\<lambda>out'.
     ebind (getitem (entity_indices ix) (et_name t)) (\<lambda>ei.
     ebind (other_reps m es adjacencies b prev t ei) (\<lambda>reps.
     ebind (if length reps > 0 then cat1 reps
            else Inr (zeros (length (rows out')) 0)) (\<lambda>other.
     cat1 [out', other])))) = Inr inp"
    by simp
  then have w: "?w \<le> ncols out" by (cases "?w \<le> ncols out") (simp_all add: narrow_def)
  then have nar: "narrow out ?w = Inr ?out'" by (simp add: narrow_def)
  from i2 have i3: "ebind (getitem (entity_indices ix) (et_name t)) (\<lambda>ei.
     ebind (other_reps m es adjacencies b prev t ei) (\<lambda>reps.
     ebind (if length reps > 0 then cat1 reps
            else Inr (zeros (length (rows ?out')) 0)) (\<lambda>other.
     cat1 [?out', other]))) = Inr inp"
    unfolding nar ebind_simps .
  then obtain ei where i4: "ebind (other_reps m es adjacencies b prev t ei) (\<lambda>reps.
     ebind (if length reps > 0 then cat1 reps
            else Inr (zeros (length (rows ?out')) 0)) (\<lambda>other.
     cat1 [?out', other])) = Inr inp"
    unfolding ebind_Inr[of "getitem (entity_indices ix) (et_name t)"] by blast
  then obtain reps where reps: "other_reps m es adjacencies b prev t ei = Inr reps"
    and i5: "ebind (if length reps > 0 then cat1 reps
            else Inr (zeros (length (rows ?out')) 0)) (\<lambda>other.
     cat1 [?out', other]) = Inr inp"
    unfolding ebind_Inr[of "other_reps m es adjacencies b prev t ei"] by blast
  from i5 obtain other where
    other: "(if length reps > 0 then cat1 reps else Inr (zeros (length (rows ?out')) 0))
                  = Inr other"
    and cat: "cat1 [?out', other] = Inr inp"
    unfolding ebind_Inr by blast
  from other_reps_nth[OF reps] have
    len: "length reps = length (relations_of m t)"
    and nth: "\<And>j. j < length reps \<Longrightarrow>
               \<exists>s. relation_reps es adjacencies b prev s (relations_of m t ! j) ei = Inr (reps ! j)"
    by auto
  from k len have ne0: "reps \<noteq> []" by auto
  with other have c: "cat1 reps = Inr other" by simp
  have blocks: "ncols u = b \<and> length (rows u) = length ei \<and> wf_tensor u" if "u \<in> set reps" for u
  proof -
    from that obtain j where j: "j < length reps" "u = reps ! j" by (auto simp: in_set_conv_nth)
    from nth[OF j(1)] obtain s where
      s: "relation_reps es adjacencies b prev s (relations_of m t ! j) ei = Inr u"
      by (auto simp: j(2))
    from relation_reps_rows[OF s] relation_reps_wf[OF s] show ?thesis by simp
  qed
  from k len nth[of k] obtain s where
    "relation_reps es adjacencies b prev s (relations_of m t ! k) ei = Inr (reps ! k)" by auto
  from relation_reps_no_edges[OF this ne] have zk: "reps ! k = zeros (length ei) b" .
  note co = cat1_Inr(3,4)[OF c]
  from cat1_Inr(2)[OF cat] have ci1: "length (rows inp) = length (rows out)" by simp
  from cat1_Inr(3)[OF cat, of other] have ci2: "length (rows other) = length (rows inp)" by simp
  have ci3: "rows inp ! i = take ?w (rows out ! i) @ rows other ! i" if "i < length (rows inp)" for i
    using cat1_Inr(4)[OF cat that] that ci1 by simp
  note ci = ci1 ci2 ci3
  from ne0 obtain u0 where u0: "u0 \<in> set reps" by (cases reps) auto
  from co(1)[OF u0] blocks[OF u0] have lo: "length (rows other) = length ei" by simp
  have row: "take b (drop (?w + k * b) (rows inp ! i)) = replicate b (Fin 0)"
    if i: "i < length (rows inp)" for i
  proof -
    from i ci(1) out(2) have "length (rows out ! i) = ncols out"
      by (simp add: wf_tensor_def list_all_iff)
    with w have l: "length (take ?w (rows out ! i)) = ?w" by simp
    from i ci(2) lo have iei: "i < length ei" by simp
    have segs: "list_all (\<lambda>s. length s = b) (map (\<lambda>u. rows u ! i) reps)"
      unfolding list_all_iff
    proof
      fix s assume "s \<in> set (map (\<lambda>u. rows u ! i) reps)"
      then obtain u where u: "u \<in> set reps" "s = rows u ! i" by auto
      from blocks[OF u(1)] iei have "rows u ! i \<in> set (rows u)" "wf_tensor u" "ncols u = b"
        by simp_all
      then show "length s = b" by (simp add: u(2) wf_tensor_def list_all_iff)
    qed
    have "take b (drop (?w + k * b) (rows inp ! i))
            = take b (drop (k * b) (concat (map (\<lambda>u. rows u ! i) reps)))"
      using ci(3)[OF i] co(2)[of i] i ci(2) l by simp
    also have "\<dots> = map (\<lambda>u. rows u ! i) reps ! k"
      using concat_segment[OF segs] k len by simp
    also have "\<dots> = replicate b (Fin 0)"
      using k len zk iei by (simp add: zeros_def)
    finally show ?thesis .
  qed
  have "map (\<lambda>r. take b (drop (?w + k * b) r)) (rows inp)
          = replicate (length (rows inp)) (replicate b (Fin 0))"
    by (rule nth_equalityI) (simp_all add: row)
  then show ?thesis by (simp add: columns_def zeros_def)
qed
subsection \<open>The small instance is well-formed\<close>

lemma ex_rows_shape: "shape_preserving w (ex_rows w g)"
  by (simp add: shape_preserving_def ex_rows_def)

lemma ex_Autoencoder_contract:
  "1 < length shapes \<Longrightarrow> ae_contract (last shapes) (ex_Autoencoder shapes)"
  by (simp add: ae_contract_def ex_Autoencoder_def ex_rows_def wf_tensor_def list_all_iff)

lemma ex_Autoencoder_size: "ae_output_size (ex_Autoencoder (s # ss)) = s"
  by (simp add: ex_Autoencoder_def)

lemma fold_zip_length:
  "list_all (\<lambda>x. length x = b) rs \<Longrightarrow> length acc = b \<Longrightarrow>
   length (fold (\<lambda>x acc. map (\<lambda>(a, b). fl_add a b) (zip acc x)) rs acc) = b"
  by (induction rs arbitrary: acc) simp_all

lemma ex_summarizer_contract: "summarizer_contract b (ex_summarizer c)"
  unfolding summarizer_contract_def
proof
  fix rs :: "fl list list"
  show "rs = [] \<or> \<not> list_all (\<lambda>r. length r = b) rs \<or> length (ex_summarizer c rs) = b"
  proof (cases rs)
    case Nil
    then show ?thesis by simp
  next
    case (Cons r rs')
    show ?thesis
    proof (cases "list_all (\<lambda>r. length r = b) rs")
      case False
      then show ?thesis by simp
    next
      case True
      with Cons have "list_all (\<lambda>x. length x = b) rs'" "length r = b" by simp_all
      from fold_zip_length[OF this] show ?thesis by (simp add: Cons ex_summarizer_def)
    qed
  qed
qed

lemma ex_model_reverse:
  "ex_model 1 [3, 1] True 8 =
     \<lparr>reverse_relations = True, schema = ex_schema, depth = 1,
      base_entity_representation_size = 8, autoencoder_shapes = [3, 1],
      bottleneck_size = Some 1,
      field_encoders = [''name'' \<mapsto> \<lparr>output_size = 2, encode = ex_rows 2 (\<lambda>x. x)\<rparr>,
                        ''title'' \<mapsto> \<lparr>output_size = 1, encode = ex_rows 1 (\<lambda>x. x)\<rparr>],
      boundary_sizes = [''Doc'' \<mapsto> 9, ''Person'' \<mapsto> 10],
      entity_autoencoders =
        [''Person'' \<mapsto> [ex_Autoencoder [10, 3, 1], ex_Autoencoder [11, 3, 1]],
         ''Doc'' \<mapsto> [ex_Autoencoder [9, 3, 1], ex_Autoencoder [10, 3, 1]]],
      relation_source_summarizers = [''authored'' \<mapsto> ex_summarizer (Fin 0)],
      relation_target_summarizers = [''authored'' \<mapsto> ex_summarizer (Fin 0)],
      projected_size = 10,
      projectors = [''Person'' \<mapsto> ex_rows 10 (\<lambda>x. x), ''Doc'' \<mapsto> ex_rows 10 (\<lambda>x. x)],
      field_decoders = [''name'' \<mapsto> ex_rows 1 (\<lambda>x. x), ''title'' \<mapsto> ex_rows 2 (\<lambda>x. x)]\<rparr>"
  by (simp add: ex_model_def init_defs ex_schema_def ex_Person_def ex_Doc_def ex_name_def
      ex_title_def ex_factories_def CategoricalField_init_def SequentialField_init_def
      Field_init_def field_name_def attrs_def dict_of_def getitem_def Let_def fun_eq_iff)

lemma ex_wf_model: "wf_model (ex_model 1 [3, 1] True 8) 1"
  unfolding ex_model_reverse
  by (simp add: wf_model_def wf_entity_type_def encoder_width_def ex_schema_def ex_Person_def
      ex_Doc_def ex_name_def ex_title_def CategoricalField_init_def SequentialField_init_def
      Field_init_def field_name_def attrs_def ex_rows_shape ex_Autoencoder_size
      ex_Autoencoder_contract[of "[10, 3, 1]", simplified]
      ex_Autoencoder_contract[of "[11, 3, 1]", simplified]
      ex_Autoencoder_contract[of "[9, 3, 1]", simplified]
      ex_summarizer_contract)

lemma ex_wf_batch: "wf_batch ex_schema ex_batch"
  by (simp add: wf_batch_def ex_schema_def ex_batch_def ex_name_def ex_title_def
      CategoricalField_init_def SequentialField_init_def Field_init_def field_name_def
      field_type_name_def attrs_def)

lemma ex_wf_adjacency:
  "wf_adjacency (ex_model 1 [3, 1] True 8) ex_batch Map.empty"
  "wf_adjacency (ex_model 1 [3, 1] True 8) ex_batch ex_no_edges"
  unfolding ex_model_reverse
  by (simp_all add: wf_adjacency_def relations_of_def ex_schema_def ex_Person_def ex_Doc_def
      ex_batch_def ex_no_edges_def)
subsection \<open>Relations without an edge\<close>

text \<open>
  C6. Let the arguments of \<^verbatim>\<open>forward\<close> be well-formed: a model with a bottleneck width
  \<open>b\<close> whose components keep their shape contracts (\<open>wf_model\<close>), a batch with a column
  of \<open>N\<close> rows for each data field (\<open>wf_batch\<close>), and an adjacency in which each
  relation of an entity type has no matrix or one of shape \<open>N \<times> N\<close> (\<open>wf_adjacency\<close>);
  so a relation may be absent from the adjacency, and may have a matrix of false entries.
  Then \<^verbatim>\<open>forward\<close> returns (it does not raise). And for every entity type and every
  relation of it that is absent from the adjacency or has an \<open>N \<times> N\<close> matrix of false
  entries, in every input that lines 201-229 assemble for the autoencoder of the type at
  a depth above 0, from an output of the previous depth with rows of its width, the block
  of the relation is zero and has exactly \<open>b\<close> columns: the \<open>k\<close>-th relation of the type
  (the outgoing ones first, then under \<^verbatim>\<open>reverse_relations\<close> the incoming ones) owns
  the \<open>b\<close> columns that start at the width of the first autoencoder plus \<open>k * b\<close>.
  The device and the element type of the tensors are not modelled.
\<close>

theorem no_edges_zero_block:
  assumes "wf_model m b" and "wf_batch (schema m) es" and "wf_adjacency m es adjacencies"
  shows "(\<exists>res. forward m es adjacencies = Inr res)
     \<and> (\<forall>t\<in>set (entity_types (schema m)). \<forall>k<length (relations_of m t).
          no_edges es adjacencies (relations_of m t ! k) \<longrightarrow>
          (\<forall>ix prev outs out aes inp.
              outs (et_name t) = Some out \<and> wf_tensor out
              \<and> entity_autoencoders m (et_name t) = Some aes
              \<and> depth_input m es adjacencies ix b prev t outs = Inr inp
              \<longrightarrow> columns inp (ae_output_size (aes ! 0) + k * b) b
                    = zeros (length (rows inp)) b))"
proof (intro conjI ballI allI impI)
  from forward_ok[OF assms] show "\<exists>res. forward m es adjacencies = Inr res" .
next
  fix t k ix prev outs out aes inp
  assume k: "k < length (relations_of m t)"
    and ne: "no_edges es adjacencies (relations_of m t ! k)"
    and h: "outs (et_name t) = Some out \<and> wf_tensor out
              \<and> entity_autoencoders m (et_name t) = Some aes
              \<and> depth_input m es adjacencies ix b prev t outs = Inr inp"
  from h have inp: "depth_input m es adjacencies ix b prev t outs = Inr inp"
    and out: "outs (et_name t) = Some out" "wf_tensor out"
    and aes: "entity_autoencoders m (et_name t) = Some aes" by simp_all
  from depth_input_zero_block[where outs = outs, OF inp out aes k ne]
  show "columns inp (ae_output_size (aes ! 0) + k * b) b = zeros (length (rows inp)) b" .
qed

text \<open>
  The instance, with reverse relations and depth 1: the relation \<open>authored\<close> without a
  matrix, and with a matrix of false entries. The input of \<open>Person\<close> has the 10 columns of
  the first autoencoder and the zero block of \<open>authored\<close> in column 10; the input of
  \<open>Doc\<close> has 9 columns and the zero block of the incoming \<open>authored\<close> in column 9.
\<close>

theorem no_edges_zero_block_witness:
  "wf_model (ex_model 1 [3, 1] True 8) 1
   \<and> wf_batch (schema (ex_model 1 [3, 1] True 8)) ex_batch
   \<and> wf_adjacency (ex_model 1 [3, 1] True 8) ex_batch Map.empty
   \<and> wf_adjacency (ex_model 1 [3, 1] True 8) ex_batch ex_no_edges
   \<and> no_edges ex_batch Map.empty ''authored''
   \<and> no_edges ex_batch ex_no_edges ''authored''
   \<and> (\<exists>res. forward (ex_model 1 [3, 1] True 8) ex_batch Map.empty = Inr res)
   \<and> (\<exists>res. forward (ex_model 1 [3, 1] True 8) ex_batch ex_no_edges = Inr res)
   \<and> depth_input (ex_model 1 [3, 1] True 8) ex_batch Map.empty (ex_indexing ex_batch) 1
        ex_bottlenecks ex_Person ex_outputs
      = Inr \<lparr>ncols = 11, rows = [replicate 8 (Fin 1) @ [Fin 2, Fin 2, Fin 0],
                                  replicate 8 (Fin 1) @ [Fin 3, Fin 3, Fin 0]]\<rparr>
   \<and> columns \<lparr>ncols = 11, rows = [replicate 8 (Fin 1) @ [Fin 2, Fin 2, Fin 0],
                                  replicate 8 (Fin 1) @ [Fin 3, Fin 3, Fin 0]]\<rparr> 10 1
      = zeros 2 1
   \<and> depth_input (ex_model 1 [3, 1] True 8) ex_batch ex_no_edges (ex_indexing ex_batch) 1
        ex_bottlenecks ex_Doc ex_outputs
      = Inr \<lparr>ncols = 10, rows = [replicate 8 (Fin 1) @ [Fin 4, Fin 0]]\<rparr>
   \<and> columns \<lparr>ncols = 10, rows = [replicate 8 (Fin 1) @ [Fin 4, Fin 0]]\<rparr> 9 1 = zeros 1 1"
proof -
  let ?m = "ex_model 1 [3, 1] True 8"
  have sc: "schema ?m = ex_schema" unfolding ex_model_reverse by simp
  have b: "wf_batch (schema ?m) ex_batch" unfolding sc by (rule ex_wf_batch)
  have ne: "no_edges ex_batch Map.empty ''authored''" "no_edges ex_batch ex_no_edges ''authored''"
    by (simp_all add: no_edges_def ex_no_edges_def ex_batch_def)
  have ty: "ex_Person \<in> set (entity_types (schema ?m))" "ex_Doc \<in> set (entity_types (schema ?m))"
    unfolding sc by (simp_all add: ex_schema_def)
  have rel: "relations_of ?m ex_Person = [''authored'']" "relations_of ?m ex_Doc = [''authored'']"
    unfolding ex_model_reverse by (simp_all add: relations_of_def ex_Person_def ex_Doc_def)
  have aes: "entity_autoencoders ?m (et_name ex_Person)
               = Some [ex_Autoencoder [10, 3, 1], ex_Autoencoder [11, 3, 1]]"
    "entity_autoencoders ?m (et_name ex_Doc)
               = Some [ex_Autoencoder [9, 3, 1], ex_Autoencoder [10, 3, 1]]"
    unfolding ex_model_reverse by (simp_all add: ex_Person_def ex_Doc_def)
  have outs: "ex_outputs (et_name ex_Person)
                = Some \<lparr>ncols = 10, rows = [replicate 8 (Fin 1) @ [Fin 2, Fin 2],
                                          replicate 8 (Fin 1) @ [Fin 3, Fin 3]]\<rparr>"
    "ex_outputs (et_name ex_Doc) = Some \<lparr>ncols = 9, rows = [replicate 8 (Fin 1) @ [Fin 4]]\<rparr>"
    by (simp_all add: ex_outputs_def ex_Person_def ex_Doc_def)
  have wf: "wf_tensor \<lparr>ncols = 10, rows = [replicate 8 (Fin 1) @ [Fin 2, Fin 2],
                                          replicate 8 (Fin 1) @ [Fin 3, Fin 3]]\<rparr>"
    "wf_tensor \<lparr>ncols = 9, rows = [replicate 8 (Fin 1) @ [Fin 4]]\<rparr>"
    by (simp_all add: wf_tensor_def)
  have p: "depth_input ?m ex_batch Map.empty (ex_indexing ex_batch) 1
        ex_bottlenecks ex_Person ex_outputs
      = Inr \<lparr>ncols = 11, rows = [replicate 8 (Fin 1) @ [Fin 2, Fin 2, Fin 0],
                                  replicate 8 (Fin 1) @ [Fin 3, Fin 3, Fin 0]]\<rparr>"
    by (simp add: ex_outputs_def ex_eval)
  have d: "depth_input ?m ex_batch ex_no_edges (ex_indexing ex_batch) 1
        ex_bottlenecks ex_Doc ex_outputs
      = Inr \<lparr>ncols = 10, rows = [replicate 8 (Fin 1) @ [Fin 4, Fin 0]]\<rparr>"
    by (simp add: ex_outputs_def ex_no_edges_def ex_eval)
  note A = no_edges_zero_block[OF ex_wf_model b ex_wf_adjacency(1)]
  note B = no_edges_zero_block[OF ex_wf_model b ex_wf_adjacency(2)]
  from A have fa: "\<exists>res. forward ?m ex_batch Map.empty = Inr res" by (rule conjunct1)
  from B have fb: "\<exists>res. forward ?m ex_batch ex_no_edges = Inr res" by (rule conjunct1)
  from A[THEN conjunct2, rule_format, of ex_Person 0 ex_outputs _ _ "ex_indexing ex_batch"
      ex_bottlenecks, OF ty(1)] rel(1) ne(1) outs(1) wf(1) aes(1) p
  have ca: "columns \<lparr>ncols = 11, rows = [replicate 8 (Fin 1) @ [Fin 2, Fin 2, Fin 0],
                                  replicate 8 (Fin 1) @ [Fin 3, Fin 3, Fin 0]]\<rparr> 10 1
      = zeros 2 1"
    by (simp add: ex_Autoencoder_size numeral_2_eq_2)
  from B[THEN conjunct2, rule_format, of ex_Doc 0 ex_outputs _ _ "ex_indexing ex_batch"
      ex_bottlenecks, OF ty(2)] rel(2) ne(2) outs(2) wf(2) aes(2) d
  have cb: "columns \<lparr>ncols = 10, rows = [replicate 8 (Fin 1) @ [Fin 4, Fin 0]]\<rparr> 9 1 = zeros 1 1"
    by (simp add: ex_Autoencoder_size)
  from ex_wf_model b ex_wf_adjacency ne fa fb p ca d cb show ?thesis by blast
qed

end
